theory Spec2Isabelle
  imports Main
begin

section \<open>Values, errors and effects\<close>

text \<open>
  The script \<^verbatim>\<open>generate_clues.py\<close> works on what \<^verbatim>\<open>json.loads\<close> returns. A float is kept as
  the text of its \<^verbatim>\<open>repr\<close>; nothing in the script looks inside a number. A \<^verbatim>\<open>dict\<close> is the list
  of its items, keys distinct, in insertion order.
\<close>

datatype json =
    JNull
  | JBool bool
  | JInt int
  | JFloat string
  | JStr string
  | JArr "json list"
  | JObj "(string \<times> json) list"

text \<open>
  The exceptions that can leave a function of the script; \<open>SystemExit\<close> is \<^verbatim>\<open>sys.exit(1)\<close>, and
  \<open>OSError\<close> stands for every failure of a file operation.
\<close>

datatype py_error =
    APIError
  | JSONDecodeError
  | IndexError
  | TypeError
  | AttributeError
  | RecursionError
  | ValueError
  | OSError
  | SystemExit

text \<open>
  What \<^verbatim>\<open>client.messages.create\<close> does on one call: it raises \<^verbatim>\<open>anthropic.APIError\<close>, or it
  returns a message, given here by the texts of its content blocks.
\<close>

datatype create_result = Raises_APIError | Message "string list"

text \<open>
  The observable effects, in the order the script performs them. Durations are in
  milliseconds, so that \<^verbatim>\<open>time.sleep(0.5)\<close> is \<open>Sleep 500\<close>. \<open>Open_w\<close> is \<^verbatim>\<open>open(path, 'w')\<close>,
  which creates the file or truncates it. \<open>Write p c n\<close> is one \<^verbatim>\<open>f.write(c)\<close> of \<^verbatim>\<open>json.dump\<close>: the
  text object is buffered, so the chunk goes to the buffer, and the library then writes the
  first \<open>n\<close> characters of the buffer through to the disk (none, as long as the buffer is
  not full). \<open>Close\<close> ends the \<^verbatim>\<open>with\<close> block and writes the rest of the buffer to the disk.
\<close>

datatype event =
    Call string
  | Sleep nat
  | Open_w string
  | Write string string nat
  | Close string
  | Remove string

type_synonym files = "string \<rightharpoonup> string"

definition content :: "files \<Rightarrow> string \<Rightarrow> string" where
  "content fs p = (case fs p of None \<Rightarrow> [] | Some s \<Rightarrow> s)"

text \<open>
  The effect of an event on the files on disk and on the buffers of the open files.
\<close>

fun apply_event :: "files \<times> files \<Rightarrow> event \<Rightarrow> files \<times> files" where
  "apply_event (fs, bs) (Open_w p) = (fs(p \<mapsto> []), bs(p \<mapsto> []))"
| "apply_event (fs, bs) (Write p c n) =
     (fs(p \<mapsto> content fs p @ take n (content bs p @ c)),
      bs(p \<mapsto> drop n (content bs p @ c)))"
| "apply_event (fs, bs) (Close p) = (fs(p \<mapsto> content fs p @ content bs p), bs(p := None))"
| "apply_event (fs, bs) (Remove p) = (fs(p := None), bs)"
| "apply_event (fs, bs) (Call q) = (fs, bs)"
| "apply_event (fs, bs) (Sleep d) = (fs, bs)"

text \<open>
  The world a run acts on: the files on disk, the buffers of the files that are open, the
  effects so far, and the number of calls the service has received.
\<close>

record world =
  files :: files
  buffers :: files
  trace :: "event list"
  calls :: nat

definition emit :: "event \<Rightarrow> world \<Rightarrow> world" where
  "emit e w =
     w\<lparr>files := fst (apply_event (files w, buffers w) e),
       buffers := snd (apply_event (files w, buffers w) e),
       trace := trace w @ [e]\<rparr>"

definition sleeps_of :: "event list \<Rightarrow> nat list" where
  "sleeps_of evs = concat (map (\<lambda>e. case e of Sleep d \<Rightarrow> [d] | _ \<Rightarrow> []) evs)"

section \<open>Constants of the script\<close>

text \<open>
  The paths are given relative to \<^verbatim>\<open>DATA_DIR\<close>. The script reads the dictionary from the file it
  later writes: \<^verbatim>\<open>INPUT_FILE\<close> and \<^verbatim>\<open>OUTPUT_FILE\<close> are one path, \<^verbatim>\<open>PROGRESS_FILE\<close> is another.
\<close>

definition INPUT_FILE :: string where "INPUT_FILE = ''dictionary-with-clues.json''"
definition OUTPUT_FILE :: string where "OUTPUT_FILE = ''dictionary-with-clues.json''"
definition PROGRESS_FILE :: string where "PROGRESS_FILE = ''clue-generation-progress.json''"

definition BATCH_SIZE :: nat where "BATCH_SIZE = 100"
definition MODEL :: string where "MODEL = ''claude-3-5-haiku-20241022''"
definition MAX_RETRIES :: nat where "MAX_RETRIES = 3"
definition RETRY_DELAY :: nat where "RETRY_DELAY = 5"

definition seconds :: "nat \<Rightarrow> nat" where
  "seconds n = 1000 * n"

section \<open>Strings\<close>

text \<open>\<^verbatim>\<open>str(n)\<close> for an integer: decimal digits, with a minus sign when negative.\<close>

fun str_nat :: "nat \<Rightarrow> string" where
  "str_nat n = (if n < 10 then [''0123456789'' ! n] else str_nat (n div 10) @ [''0123456789'' ! (n mod 10)])"

declare str_nat.simps [simp del]

definition str_int :: "int \<Rightarrow> string" where
  "str_int i = (if i < 0 then CHR ''-'' # str_nat (nat (- i)) else str_nat (nat i))"

text \<open>
  \<^verbatim>\<open>str.isspace\<close> on the characters below 256, and \<^verbatim>\<open>str.strip()\<close>.
\<close>

definition isspace :: "char \<Rightarrow> bool" where
  "isspace c = (let n = (of_char c :: nat) in
      (9 \<le> n \<and> n \<le> 13) \<or> (28 \<le> n \<and> n \<le> 32) \<or> n = 133 \<or> n = 160)"

definition strip :: "string \<Rightarrow> string" where
  "strip s = rev (dropWhile isspace (rev (dropWhile isspace s)))"

definition startswith :: "string \<Rightarrow> string \<Rightarrow> bool" where
  "startswith s p = (take (length p) s = p)"

definition fence :: string where
  "fence = ''```''"

text \<open>
  \<^verbatim>\<open>content.split("```")\<close>: the pieces between the occurrences of the fence, found from the
  left without overlap. \<open>acc\<close> holds the current piece, reversed.
\<close>

fun split_fence :: "string \<Rightarrow> string \<Rightarrow> string list" where
  "split_fence acc [] = [rev acc]"
| "split_fence acc (c # cs) =
     (if take 3 (c # cs) = fence then rev acc # split_fence [] (drop 2 cs)
      else split_fence (c # acc) cs)"

definition newline :: string where
  "newline = [char_of (10 :: nat)]"

text \<open>\<^verbatim>\<open>sep.join(parts)\<close>.\<close>

fun join :: "string \<Rightarrow> string list \<Rightarrow> string" where
  "join sep [] = []"
| "join sep [x] = x"
| "join sep (x # y # ys) = x @ sep @ join sep (y # ys)"

section \<open>The enrichment client: \<^verbatim>\<open>generate_clues_batch\<close>\<close>

definition dquote :: string where
  "dquote = [char_of (34 :: nat)]"

text \<open>Lines 67 to 80: the numbered word list and the prompt that embeds it.\<close>

definition word_list :: "string list \<Rightarrow> string" where
  "word_list words =
     join newline (map (\<lambda>(i, w). str_int (int i + 1) @ ''. '' @ w) (enumerate 0 words))"

definition prompt :: "string list \<Rightarrow> string" where
  "prompt words =
     ''Generate very short clues (2-5 words each) for these words.'' @ newline @
     ''Target audience: young teenagers playing a word game.'' @ newline @
     ''Mix of straightforward definitions and slightly clever/fun clues.'' @ newline @
     ''Keep it simple and age-appropriate.'' @ newline @ newline @
     ''Words:'' @ newline @ word_list words @ newline @ newline @
     ''Respond with ONLY a JSON array of clues in the same order, like:'' @ newline @
     ''['' @ dquote @ ''clue for word 1'' @ dquote @ '', '' @ dquote @ ''clue for word 2'' @
       dquote @ '', ...]'' @ newline @ newline @
     ''No explanations, just the JSON array.''"

text \<open>
  Lines 91 to 98: the text handed to \<^verbatim>\<open>json.loads\<close>. When the stripped text starts with the
  fence, \<^verbatim>\<open>split\<close> returns at least two pieces, so piece 1 exists.
\<close>

definition extract_json :: "string \<Rightarrow> string" where
  "extract_json text =
     (let content = strip text in
      if startswith content fence then
        (let content = split_fence [] content ! 1;
             content = (if startswith content ''json'' then drop 4 content else content)
         in strip content)
      else content)"

text \<open>The placeholder clue \<^verbatim>\<open>f"Define: {w}"\<close>.\<close>

definition define_clue :: "string \<Rightarrow> json" where
  "define_clue w = JStr (''Define: '' @ w)"

text \<open>\<^verbatim>\<open>len(clues)\<close>: defined on lists, strings and dicts, a \<^verbatim>\<open>TypeError\<close> on the rest.\<close>

fun py_len :: "json \<Rightarrow> py_error + nat" where
  "py_len (JArr xs) = Inr (length xs)"
| "py_len (JStr s) = Inr (length s)"
| "py_len (JObj kvs) = Inr (length kvs)"
| "py_len JNull = Inl TypeError"
| "py_len (JBool b) = Inl TypeError"
| "py_len (JInt i) = Inl TypeError"
| "py_len (JFloat f) = Inl TypeError"

text \<open>Lines 105 and 106 on a list: append placeholders while the list is short.\<close>

function pad :: "string list \<Rightarrow> json list \<Rightarrow> json list" where
  "pad words clues =
     (if length clues < length words
      then pad words (clues @ [define_clue (words ! length clues)])
      else clues)"
  by pat_completeness auto
termination
  by (relation "measure (\<lambda>(words, clues). length words - length clues)") auto

declare pad.simps [simp del]

text \<open>
  Lines 102 to 109. Only a list has \<^verbatim>\<open>append\<close>: on a short string or dict the first turn of
  the loop raises \<^verbatim>\<open>AttributeError\<close>. A string can be sliced; slicing a dict raises
  (\<^verbatim>\<open>TypeError\<close> up to Python 3.11, \<^verbatim>\<open>KeyError\<close> from 3.12 on; the model says \<open>TypeError\<close>).
\<close>

definition fix_length :: "string list \<Rightarrow> json \<Rightarrow> py_error + json" where
  "fix_length words clues =
     (case py_len clues of
        Inl e \<Rightarrow> Inl e
      | Inr n \<Rightarrow>
          if n \<noteq> length words then
            (case clues of
               JArr cs \<Rightarrow> Inr (JArr (take (length words) (pad words cs)))
             | JStr s \<Rightarrow>
                 if n < length words then Inl AttributeError
                 else Inr (JStr (take (length words) s))
             | JObj kvs \<Rightarrow>
                 if n < length words then Inl AttributeError else Inl TypeError
             | _ \<Rightarrow> Inl TypeError)
          else Inr clues)"

text \<open>
  Lines 84 to 109, the body of the \<^verbatim>\<open>try\<close>: \<open>loads\<close> is \<^verbatim>\<open>json.loads\<close>, which returns a value
  or raises: \<^verbatim>\<open>JSONDecodeError\<close> on a text that is not JSON, and also \<^verbatim>\<open>RecursionError\<close> on a
  text nested too deep and \<^verbatim>\<open>ValueError\<close> on a number with too many digits.
  \<^verbatim>\<open>response.content[0]\<close> raises \<^verbatim>\<open>IndexError\<close> on a message without content blocks.
\<close>

definition attempt_body ::
  "(string \<Rightarrow> py_error + json) \<Rightarrow> create_result \<Rightarrow> string list \<Rightarrow> py_error + json" where
  "attempt_body loads response words =
     (case response of
        Raises_APIError \<Rightarrow> Inl APIError
      | Message blocks \<Rightarrow>
          (case blocks of
             [] \<Rightarrow> Inl IndexError
           | first # _ \<Rightarrow>
               (case loads (extract_json first) of
                  Inl e \<Rightarrow> Inl e
                | Inr clues \<Rightarrow> fix_length words clues)))"

text \<open>
  Lines 111 to 119: the two handlers. After a parse error the script sleeps \<^verbatim>\<open>RETRY_DELAY\<close>,
  after an API error \<^verbatim>\<open>RETRY_DELAY * (attempt + 1)\<close>, and in both only when another attempt
  follows.
\<close>

definition handler :: "py_error \<Rightarrow> nat \<Rightarrow> world \<Rightarrow> world" where
  "handler e attempt w =
     (if attempt < MAX_RETRIES - 1 then
        (if e = JSONDecodeError then emit (Sleep (seconds RETRY_DELAY)) w
         else emit (Sleep (seconds (RETRY_DELAY * (attempt + 1)))) w)
      else w)"

text \<open>
  Lines 82 to 122: the loop over \<^verbatim>\<open>range(MAX_RETRIES)\<close>. \<open>create n q\<close> is what the service does
  on its \<open>n\<close>-th call of the run when sent the prompt \<open>q\<close>. An exception other than the two
  caught ones leaves the function.
\<close>

fun retry ::
  "(string \<Rightarrow> py_error + json) \<Rightarrow> (nat \<Rightarrow> string \<Rightarrow> create_result) \<Rightarrow> string list \<Rightarrow>
   nat list \<Rightarrow> world \<Rightarrow> (py_error + json) \<times> world" where
  "retry loads create words [] w = (Inr (JArr (map define_clue words)), w)"
| "retry loads create words (attempt # rest) w =
     (let w1 = emit (Call (prompt words)) (w\<lparr>calls := calls w + 1\<rparr>) in
      case attempt_body loads (create (calls w) (prompt words)) words of
        Inr clues \<Rightarrow> (Inr clues, w1)
      | Inl e \<Rightarrow>
          if e = JSONDecodeError \<or> e = APIError
          then retry loads create words rest (handler e attempt w1)
          else (Inl e, w1))"

definition generate_clues_batch ::
  "(string \<Rightarrow> py_error + json) \<Rightarrow> (nat \<Rightarrow> string \<Rightarrow> create_result) \<Rightarrow> string list \<Rightarrow>
   world \<Rightarrow> (py_error + json) \<times> world" where
  "generate_clues_batch loads create words w =
     retry loads create words [0..<MAX_RETRIES] w"

section \<open>The dataset and the checkpoint\<close>

text \<open>
  An entry of \<^verbatim>\<open>data['words']\<close> as \<^verbatim>\<open>process_dictionary.py\<close> writes it. The clue is whatever
  value the merge stores, \<open>None\<close> when the key is absent. The field \<^verbatim>\<open>length\<close> is named
  \<open>word_length\<close> here.
\<close>

record word_entry =
  word :: string
  clue :: "json option"
  word_length :: int
  distinctLetters :: int

record dataset =
  metadata :: "string \<rightharpoonup> json"
  words :: "word_entry list"

text \<open>
  The checkpoint \<^verbatim>\<open>{'completed_indices': [...], 'clues': {...}}\<close>. The script reads the list only
  through \<^verbatim>\<open>set(...)\<close> and writes it as \<^verbatim>\<open>list(completed_set)\<close>, whose order Python leaves
  open, so the model keeps the set. The keys of \<^verbatim>\<open>clues\<close> are the indices as text.
\<close>

record progress =
  completed_indices :: "int set"
  clues :: "string \<rightharpoonup> json"

text \<open>The variables of \<^verbatim>\<open>main\<close> that the batch loop updates.\<close>

record state =
  data :: dataset
  completed_set :: "int set"
  clues_cache :: "string \<rightharpoonup> json"

record args =
  api_key :: "string option"
  start :: int
  limit :: "int option"
  dry_run :: bool

text \<open>
  What the script takes from outside: the JSON reader on a response, the reader on the
  dictionary file and on the checkpoint file (\<open>None\<close> is \<^verbatim>\<open>JSONDecodeError\<close>; a file that can be
  read is taken to have the layout above), the chunks \<^verbatim>\<open>json.dump\<close> writes for a checkpoint
  and for the dataset, the service, the environment variable, the clock, the file
  operations that fail with \<^verbatim>\<open>OSError\<close> (\<open>io_fails n\<close> says so for an operation attempted after
  \<open>n\<close> effects), and the buffering of the library: \<open>flushes n\<close> is the number of characters
  it writes through to the disk on a write performed after \<open>n\<close> effects.
\<close>

record externals =
  json_loads :: "string \<Rightarrow> py_error + json"
  load_data :: "string \<Rightarrow> dataset option"
  load_ckpt :: "string \<Rightarrow> progress option"
  dump_ckpt :: "progress \<Rightarrow> string list"
  dump_data :: "dataset \<Rightarrow> string list"
  messages_create :: "nat \<Rightarrow> string \<Rightarrow> create_result"
  env_api_key :: "string option"
  now_isoformat :: string
  io_fails :: "nat \<Rightarrow> bool"
  flushes :: "nat \<Rightarrow> nat"

section \<open>The checkpoint store\<close>

text \<open>Lines 44 to 47. \<^verbatim>\<open>open\<close> raises when the file is missing.\<close>

definition load_dictionary :: "externals \<Rightarrow> world \<Rightarrow> py_error + dataset" where
  "load_dictionary x w =
     (case files w INPUT_FILE of
        None \<Rightarrow> Inl OSError
      | Some body \<Rightarrow>
          (case load_data x body of None \<Rightarrow> Inl JSONDecodeError | Some d \<Rightarrow> Inr d))"

text \<open>Lines 50 to 55.\<close>

definition load_progress :: "externals \<Rightarrow> world \<Rightarrow> py_error + progress" where
  "load_progress x w =
     (case files w PROGRESS_FILE of
        Some body \<Rightarrow>
          (case load_ckpt x body of None \<Rightarrow> Inl JSONDecodeError | Some p \<Rightarrow> Inr p)
      | None \<Rightarrow> Inr \<lparr>completed_indices = {}, clues = Map.empty\<rparr>)"

text \<open>
  \<^verbatim>\<open>with open(path, 'w') as f: json.dump(value, f)\<close>: the file is truncated in place, then the
  chunks are written one after the other, and the file is closed when the block is left,
  also when a write has failed. An operation that fails raises; a failing \<^verbatim>\<open>open\<close> leaves
  the file alone.
\<close>

fun write_chunks ::
  "(nat \<Rightarrow> bool) \<Rightarrow> (nat \<Rightarrow> nat) \<Rightarrow> string \<Rightarrow> string list \<Rightarrow> world \<Rightarrow>
   py_error option \<times> world" where
  "write_chunks fails fl p [] w = (None, w)"
| "write_chunks fails fl p (c # cs) w =
     (if fails (length (trace w)) then (Some OSError, w)
      else write_chunks fails fl p cs (emit (Write p c (fl (length (trace w)))) w))"

definition write_file ::
  "(nat \<Rightarrow> bool) \<Rightarrow> (nat \<Rightarrow> nat) \<Rightarrow> string \<Rightarrow> string list \<Rightarrow> world \<Rightarrow>
   py_error option \<times> world" where
  "write_file fails fl p chunks w =
     (if fails (length (trace w)) then (Some OSError, w)
      else case write_chunks fails fl p chunks (emit (Open_w p) w) of
             (r, w1) \<Rightarrow> (r, emit (Close p) w1))"

text \<open>
  The effects of a write that does not fail and starts after \<open>t\<close> effects.
\<close>

fun chunk_writes :: "(nat \<Rightarrow> nat) \<Rightarrow> nat \<Rightarrow> string \<Rightarrow> string list \<Rightarrow> event list" where
  "chunk_writes fl t p [] = []"
| "chunk_writes fl t p (c # cs) = Write p c (fl t) # chunk_writes fl (Suc t) p cs"

definition write_effects :: "(nat \<Rightarrow> nat) \<Rightarrow> nat \<Rightarrow> string \<Rightarrow> string list \<Rightarrow> event list" where
  "write_effects fl t p chunks = Open_w p # chunk_writes fl (Suc t) p chunks @ [Close p]"

text \<open>Lines 58 to 61, and the effects of a save that does not fail.\<close>

definition save_progress ::
  "externals \<Rightarrow> progress \<Rightarrow> world \<Rightarrow> py_error option \<times> world" where
  "save_progress x pr w =
     write_file (io_fails x) (flushes x) PROGRESS_FILE (dump_ckpt x pr) w"

definition save_progress_effects :: "externals \<Rightarrow> progress \<Rightarrow> nat \<Rightarrow> event list" where
  "save_progress_effects x pr t = write_effects (flushes x) t PROGRESS_FILE (dump_ckpt x pr)"

section \<open>Pending indices and batches\<close>

text \<open>Lines 156 and 157. \<^verbatim>\<open>if args.limit\<close> is false for \<^verbatim>\<open>None\<close> and for \<^verbatim>\<open>0\<close>.\<close>

definition end_idx :: "nat \<Rightarrow> int \<Rightarrow> int option \<Rightarrow> int" where
  "end_idx total_words start_idx lim =
     (case lim of
        None \<Rightarrow> int total_words
      | Some l \<Rightarrow> if l \<noteq> 0 then min (int total_words) (l + start_idx) else int total_words)"

text \<open>Line 160. \<^verbatim>\<open>range(a, b)\<close> is \<open>[a..b - 1]\<close>.\<close>

definition indices_to_process :: "nat \<Rightarrow> int set \<Rightarrow> int \<Rightarrow> int option \<Rightarrow> int list" where
  "indices_to_process total_words completed start_idx lim =
     filter (\<lambda>i. i \<notin> completed) [start_idx..end_idx total_words start_idx lim - 1]"

text \<open>Line 174 and lines 182 to 184, for a batch size \<open>B\<close>; the script runs them at \<open>BATCH_SIZE\<close>.\<close>

definition batch_count :: "nat \<Rightarrow> 'a list \<Rightarrow> nat" where
  "batch_count B pending = (length pending + B - 1) div B"

definition batch_indices :: "nat \<Rightarrow> 'a list \<Rightarrow> nat \<Rightarrow> 'a list" where
  "batch_indices B pending batch_num =
     (let batch_start = batch_num * B;
          batch_end = min (batch_start + B) (length pending)
      in take (batch_end - batch_start) (drop batch_start pending))"

definition batches :: "nat \<Rightarrow> 'a list \<Rightarrow> 'a list list" where
  "batches B pending = map (batch_indices B pending) [0..<batch_count B pending]"

section \<open>The batch loop\<close>

text \<open>\<^verbatim>\<open>xs[i]\<close> on a list of length \<open>n\<close>: a negative index counts from the end.\<close>

definition py_index :: "nat \<Rightarrow> int \<Rightarrow> nat option" where
  "py_index n i =
     (if 0 \<le> i \<and> i < int n then Some (nat i)
      else if - int n \<le> i \<and> i < 0 then Some (nat (int n + i))
      else None)"

text \<open>Line 186.\<close>

fun batch_words :: "word_entry list \<Rightarrow> int list \<Rightarrow> py_error + string list" where
  "batch_words ws [] = Inr []"
| "batch_words ws (i # is) =
     (case py_index (length ws) i of
        None \<Rightarrow> Inl IndexError
      | Some p \<Rightarrow>
          (case batch_words ws is of
             Inl e \<Rightarrow> Inl e
           | Inr r \<Rightarrow> Inr (word (ws ! p) # r)))"

text \<open>What \<^verbatim>\<open>zip\<close> iterates over: the elements of a list, the characters of a string, the keys
  of a dict.\<close>

fun py_iter :: "json \<Rightarrow> py_error + json list" where
  "py_iter (JArr xs) = Inr xs"
| "py_iter (JStr s) = Inr (map (\<lambda>c. JStr [c]) s)"
| "py_iter (JObj kvs) = Inr (map (\<lambda>kv. JStr (fst kv)) kvs)"
| "py_iter JNull = Inl TypeError"
| "py_iter (JBool b) = Inl TypeError"
| "py_iter (JInt i) = Inl TypeError"
| "py_iter (JFloat f) = Inl TypeError"

text \<open>Lines 194 to 197.\<close>

fun merge :: "(int \<times> json) list \<Rightarrow> state \<Rightarrow> py_error + state" where
  "merge [] st = Inr st"
| "merge ((idx, c) # rest) st =
     (case py_index (length (words (data st))) idx of
        None \<Rightarrow> Inl IndexError
      | Some p \<Rightarrow>
          merge rest
            (st\<lparr>data := (data st)\<lparr>words :=
                    (words (data st))[p := (words (data st) ! p)\<lparr>clue := Some c\<rparr>]\<rparr>,
                 clues_cache := (clues_cache st)(str_int idx \<mapsto> c),
                 completed_set := insert idx (completed_set st)\<rparr>))"

text \<open>
  Lines 182 to 213, one turn of the loop. Line 188 reads \<^verbatim>\<open>batch_words[0]\<close>, which raises on
  an empty batch.
\<close>

definition process_batch ::
  "externals \<Rightarrow> int list \<Rightarrow> nat \<Rightarrow> nat \<Rightarrow> state \<Rightarrow> world \<Rightarrow> (py_error + state) \<times> world" where
  "process_batch x pending n_batches batch_num st w =
     (let idxs = batch_indices BATCH_SIZE pending batch_num in
      case batch_words (words (data st)) idxs of
        Inl e \<Rightarrow> (Inl e, w)
      | Inr bw \<Rightarrow>
          if bw = [] then (Inl IndexError, w)
          else
            (case generate_clues_batch (json_loads x) (messages_create x) bw w of
               (Inl e, w1) \<Rightarrow> (Inl e, w1)
             | (Inr cl, w1) \<Rightarrow>
                 (case py_iter cl of
                    Inl e \<Rightarrow> (Inl e, w1)
                  | Inr cs \<Rightarrow>
                      (case merge (zip idxs cs) st of
                         Inl e \<Rightarrow> (Inl e, w1)
                       | Inr st1 \<Rightarrow>
                           (case save_progress x
                                   \<lparr>completed_indices = completed_set st1,
                                    clues = clues_cache st1\<rparr> w1 of
                              (Some e, w2) \<Rightarrow> (Inl e, w2)
                            | (None, w2) \<Rightarrow>
                                (Inr st1,
                                 if batch_num < n_batches - 1 then emit (Sleep 500) w2
                                 else w2))))))"

text \<open>Line 181: the loop over the batch numbers.\<close>

fun run_batches ::
  "externals \<Rightarrow> int list \<Rightarrow> nat \<Rightarrow> nat list \<Rightarrow> state \<Rightarrow> world \<Rightarrow> (py_error + state) \<times> world" where
  "run_batches x pending n_batches [] st w = (Inr st, w)"
| "run_batches x pending n_batches (batch_num # rest) st w =
     (case process_batch x pending n_batches batch_num st w of
        (Inl e, w1) \<Rightarrow> (Inl e, w1)
      | (Inr st1, w1) \<Rightarrow> run_batches x pending n_batches rest st1 w1)"

section \<open>Final commit and \<^verbatim>\<open>main\<close>\<close>

text \<open>Lines 218 to 227.\<close>

definition final_commit :: "externals \<Rightarrow> state \<Rightarrow> world \<Rightarrow> (py_error + state) \<times> world" where
  "final_commit x st w =
     (let d = (data st)\<lparr>metadata :=
                 (metadata (data st))(''cluesGeneratedAt'' \<mapsto> JStr (now_isoformat x),
                                      ''cluesModel'' \<mapsto> JStr MODEL)\<rparr>;
          st1 = st\<lparr>data := d\<rparr>
      in case write_file (io_fails x) (flushes x) OUTPUT_FILE (dump_data x d) w of
           (Some e, w1) \<Rightarrow> (Inl e, w1)
         | (None, w1) \<Rightarrow>
             if files w1 PROGRESS_FILE \<noteq> None then
               (if io_fails x (length (trace w1)) then (Inl OSError, w1)
                else (Inr st1, emit (Remove PROGRESS_FILE) w1))
             else (Inr st1, w1))"

text \<open>\<^verbatim>\<open>args.api_key or os.environ.get('ANTHROPIC_API_KEY')\<close>, and its truth value.\<close>

definition truthy :: "string option \<Rightarrow> bool" where
  "truthy k = (k \<noteq> None \<and> k \<noteq> Some [])"

definition resolve_key :: "externals \<Rightarrow> args \<Rightarrow> string option" where
  "resolve_key x a = (if truthy (api_key a) then api_key a else env_api_key x)"

text \<open>
  Lines 125 to 231. A dry run prints the first ten pending words and returns; \<^verbatim>\<open>sys.exit(1)\<close>
  is the error \<open>SystemExit\<close>.
\<close>

definition main :: "externals \<Rightarrow> args \<Rightarrow> world \<Rightarrow> (py_error + state) \<times> world" where
  "main x a w =
     (if \<not> truthy (resolve_key x a) \<and> \<not> dry_run a then (Inl SystemExit, w)
      else
        case load_dictionary x w of
          Inl e \<Rightarrow> (Inl e, w)
        | Inr d \<Rightarrow>
            (case load_progress x w of
               Inl e \<Rightarrow> (Inl e, w)
             | Inr pr \<Rightarrow>
                 (let total_words = length (words d);
                      st = \<lparr>data = d, completed_set = completed_indices pr,
                            clues_cache = clues pr\<rparr>;
                      pending = indices_to_process total_words (completed_indices pr)
                                  (start a) (limit a)
                  in if dry_run a then
                       (case batch_words (words d) (take 10 pending) of
                          Inl e \<Rightarrow> (Inl e, w)
                        | Inr shown \<Rightarrow> (Inr st, w))
                     else
                       (let n_batches = batch_count BATCH_SIZE pending in
                        case run_batches x pending n_batches [0..<n_batches] st w of
                          (Inl e, w1) \<Rightarrow> (Inl e, w1)
                        | (Inr st1, w1) \<Rightarrow> final_commit x st1 w1))))"

section \<open>Doubles for concrete runs\<close>

text \<open>
  A service that answers the \<open>n\<close>-th call with the \<open>n\<close>-th entry of a script and fails once the
  script is used up, a JSON reader given by a finite table (a text outside the table is not
  JSON), a serialiser that writes fixed chunks, a disk that never fails, a library that
  writes nothing through before the file is closed, a world in which nothing has happened
  yet, and an environment put together from these.
\<close>

definition scripted :: "create_result list \<Rightarrow> nat \<Rightarrow> string \<Rightarrow> create_result" where
  "scripted rs n q = (if n < length rs then rs ! n else Raises_APIError)"

definition table :: "(string \<rightharpoonup> json) \<Rightarrow> string \<Rightarrow> py_error + json" where
  "table t s = (case t s of None \<Rightarrow> Inl JSONDecodeError | Some v \<Rightarrow> Inr v)"

definition fixed_chunks :: "string list \<Rightarrow> 'a \<Rightarrow> string list" where
  "fixed_chunks cs v = cs"

definition never :: "nat \<Rightarrow> bool" where
  "never n = False"

definition unflushed :: "nat \<Rightarrow> nat" where
  "unflushed n = 0"

definition fresh :: "files \<Rightarrow> world" where
  "fresh fs = \<lparr>files = fs, buffers = Map.empty, trace = [], calls = 0\<rparr>"

definition double ::
  "(string \<rightharpoonup> json) \<Rightarrow> (string \<rightharpoonup> dataset) \<Rightarrow> (string \<rightharpoonup> progress) \<Rightarrow>
   create_result list \<Rightarrow> externals" where
  "double responses dictionaries checkpoints script =
     \<lparr>json_loads = table responses, load_data = dictionaries, load_ckpt = checkpoints,
      dump_ckpt = fixed_chunks [''{'', ''checkpoint'', ''}''],
      dump_data = fixed_chunks [''{'', ''dataset'', ''}''],
      messages_create = scripted script, env_api_key = Some ''key'',
      now_isoformat = ''2025-01-01T00:00:00'', io_fails = never, flushes = unflushed\<rparr>"

text \<open>
  A dictionary of two words, the loop state at the start of a first run on it, an
  environment whose service answers the first call with the one-element array \<^verbatim>\<open>[7]\<close>, and
  the default command line.
\<close>

definition sample_data :: dataset where
  "sample_data =
     \<lparr>metadata = [''totalWords'' \<mapsto> JInt 2],
      words = [\<lparr>word = ''CATS'', clue = Some (JStr ''Define: CATS''), word_length = 4,
                distinctLetters = 4\<rparr>,
               \<lparr>word = ''DOGS'', clue = Some (JStr ''Define: DOGS''), word_length = 4,
                distinctLetters = 4\<rparr>]\<rparr>"

definition sample_state :: state where
  "sample_state = \<lparr>data = sample_data, completed_set = {}, clues_cache = Map.empty\<rparr>"

definition sample_env :: externals where
  "sample_env = double [''[7]'' \<mapsto> JArr [JInt 7]]
     [''dictionary'' \<mapsto> sample_data]
     [''checkpoint'' \<mapsto> \<lparr>completed_indices = {0}, clues = [''0'' \<mapsto> JStr ''felines'']\<rparr>]
     [Message [''[7]'']]"

definition sample_args :: args where
  "sample_args = \<lparr>api_key = None, start = 0, limit = None, dry_run = False\<rparr>"

section \<open>What one attempt runs into\<close>

definition outcome ::
  "(string \<Rightarrow> py_error + json) \<Rightarrow> (nat \<Rightarrow> string \<Rightarrow> create_result) \<Rightarrow> string list \<Rightarrow> world \<Rightarrow>
   nat \<Rightarrow> py_error + json" where
  "outcome loads create ws w t = attempt_body loads (create (calls w + t) (prompt ws)) ws"

definition retryable :: "py_error + json \<Rightarrow> bool" where
  "retryable r = (r = Inl JSONDecodeError \<or> r = Inl APIError)"

section \<open>Basic facts about effects\<close>

lemmas run_defs = generate_clues_batch_def MAX_RETRIES_def RETRY_DELAY_def seconds_def upt_rec
  attempt_body_def outcome_def retryable_def scripted_def fresh_def extract_json_def strip_def
  isspace_def startswith_def fence_def fix_length_def handler_def Let_def table_def

lemma calls_emit [simp]: "calls (emit e w) = calls w"
  by (simp add: emit_def)

lemma trace_emit [simp]: "trace (emit e w) = trace w @ [e]"
  by (simp add: emit_def)

lemma files_emit [simp]: "files (emit e w) = fst (apply_event (files w, buffers w) e)"
  by (simp add: emit_def)

lemma buffers_emit [simp]: "buffers (emit e w) = snd (apply_event (files w, buffers w) e)"
  by (simp add: emit_def)

lemma calls_handler [simp]: "calls (handler e a w) = calls w"
  by (simp add: handler_def)

lemma sleeps_of_append [simp]: "sleeps_of (xs @ ys) = sleeps_of xs @ sleeps_of ys"
  by (simp add: sleeps_of_def)

lemma sleeps_of_simps [simp]:
  "sleeps_of [] = []"
  "sleeps_of (Sleep d # evs) = d # sleeps_of evs"
  "sleeps_of (Call q # evs) = sleeps_of evs"
  "sleeps_of (Open_w p # evs) = sleeps_of evs"
  "sleeps_of (Write p c n # evs) = sleeps_of evs"
  "sleeps_of (Close p # evs) = sleeps_of evs"
  "sleeps_of (Remove p # evs) = sleeps_of evs"
  by (simp_all add: sleeps_of_def)

lemma pad_eq: "pad ws cs = cs @ map define_clue (drop (length cs) ws)"
proof (induction ws cs rule: pad.induct)
  case (1 ws clues)
  show ?case
  proof (cases "length clues < length ws")
    case True
    then have "drop (length clues) ws = ws ! length clues # drop (Suc (length clues)) ws"
      by (simp add: Cons_nth_drop_Suc)
    with True 1 show ?thesis
      by (subst pad.simps) simp
  next
    case False
    then show ?thesis by (subst pad.simps) simp
  qed
qed

lemma fix_length_JArr:
  "fix_length ws (JArr cs) =
     Inr (JArr (take (length ws) cs @ map define_clue (drop (length cs) ws)))"
  by (simp add: fix_length_def pad_eq)

lemma retry_all_fail:
  "\<forall>t<length atts. retryable (outcome loads create ws w t) \<Longrightarrow>
   fst (retry loads create ws atts w) = Inr (JArr (map define_clue ws))"
proof (induction atts arbitrary: w)
  case Nil
  then show ?case by simp
next
  case (Cons a atts)
  from Cons.prems have r0: "retryable (outcome loads create ws w 0)" by auto
  then obtain e where e: "attempt_body loads (create (calls w) (prompt ws)) ws = Inl e"
    "e = JSONDecodeError \<or> e = APIError"
    by (auto simp: retryable_def outcome_def)
  let ?w = "handler e a (emit (Call (prompt ws)) (w\<lparr>calls := calls w + 1\<rparr>))"
  have "\<forall>t<length atts. retryable (outcome loads create ws ?w t)"
  proof (intro allI impI)
    fix t assume "t < length atts"
    with Cons.prems have "retryable (outcome loads create ws w (Suc t))" by auto
    then show "retryable (outcome loads create ws ?w t)" by (simp add: outcome_def)
  qed
  from Cons.IH [OF this] e show ?case by (auto simp: Let_def)
qed

lemma retry_first_final:
  "s < length atts \<Longrightarrow> \<forall>t<s. retryable (outcome loads create ws w t) \<Longrightarrow>
   \<not> retryable (outcome loads create ws w s) \<Longrightarrow>
   fst (retry loads create ws atts w) = outcome loads create ws w s"
proof (induction atts arbitrary: w s)
  case Nil
  then show ?case by simp
next
  case (Cons a atts)
  show ?case
  proof (cases s)
    case 0
    with Cons.prems(3) show ?thesis
      by (auto simp: Let_def retryable_def outcome_def split: sum.splits)
  next
    case (Suc s')
    with Cons.prems have r0: "retryable (outcome loads create ws w 0)" by auto
    then obtain e where e: "attempt_body loads (create (calls w) (prompt ws)) ws = Inl e"
      "e = JSONDecodeError \<or> e = APIError"
      by (auto simp: retryable_def outcome_def)
    let ?w = "handler e a (emit (Call (prompt ws)) (w\<lparr>calls := calls w + 1\<rparr>))"
    have shift: "outcome loads create ws ?w t = outcome loads create ws w (Suc t)" for t
      by (simp add: outcome_def)
    have "fst (retry loads create ws atts ?w) = outcome loads create ws ?w s'"
    proof (rule Cons.IH)
      show "s' < length atts" using Cons.prems(1) Suc by simp
      show "\<forall>t<s'. retryable (outcome loads create ws ?w t)"
        using Cons.prems(2) Suc by (auto simp: outcome_def)
      show "\<not> retryable (outcome loads create ws ?w s')"
        using Cons.prems(3) Suc by (simp add: outcome_def)
    qed
    with e Suc show ?thesis by (auto simp: Let_def outcome_def)
  qed
qed

lemma sleeps_handler:
  "sleeps_of (trace (handler e a w)) =
     sleeps_of (trace w) @
       (if a < MAX_RETRIES - 1
        then [if e = JSONDecodeError then seconds RETRY_DELAY else seconds (RETRY_DELAY * (a + 1))]
        else [])"
  by (simp add: handler_def)

lemma retry_sleeps:
  "length errs \<le> length atts \<Longrightarrow>
   \<forall>t<length errs. outcome loads create ws w t = Inl (errs ! t) \<and>
       (errs ! t = JSONDecodeError \<or> errs ! t = APIError) \<Longrightarrow>
   length errs < length atts \<longrightarrow> \<not> retryable (outcome loads create ws w (length errs)) \<Longrightarrow>
   sleeps_of (trace (snd (retry loads create ws atts w))) =
     sleeps_of (trace w) @
       concat (map (\<lambda>(e, a). if a < MAX_RETRIES - 1
                 then [if e = JSONDecodeError then seconds RETRY_DELAY
                       else seconds (RETRY_DELAY * (a + 1))]
                 else []) (zip errs atts))"
proof (induction atts arbitrary: w errs)
  case Nil
  then show ?case by simp
next
  case (Cons a atts)
  show ?case
  proof (cases errs)
    case Nil
    with Cons.prems(3) show ?thesis
      by (auto simp: Let_def retryable_def outcome_def split: sum.splits)
  next
    case (Cons e es)
    with Cons.prems(2) have e: "attempt_body loads (create (calls w) (prompt ws)) ws = Inl e"
      "e = JSONDecodeError \<or> e = APIError"
      by (auto simp: outcome_def)
    let ?w = "handler e a (emit (Call (prompt ws)) (w\<lparr>calls := calls w + 1\<rparr>))"
    have "sleeps_of (trace (snd (retry loads create ws atts ?w))) =
            sleeps_of (trace ?w) @
              concat (map (\<lambda>(e, a). if a < MAX_RETRIES - 1
                 then [if e = JSONDecodeError then seconds RETRY_DELAY
                       else seconds (RETRY_DELAY * (a + 1))]
                 else []) (zip es atts))"
    proof (rule Cons.IH)
      show "length es \<le> length atts" using Cons.prems(1) Cons by simp
      show "\<forall>t<length es. outcome loads create ws ?w t = Inl (es ! t) \<and>
               (es ! t = JSONDecodeError \<or> es ! t = APIError)"
      proof (intro allI impI)
        fix t assume "t < length es"
        then have "Suc t < length errs" using Cons by simp
        with Cons.prems(2) have "outcome loads create ws w (Suc t) = Inl (errs ! Suc t) \<and>
               (errs ! Suc t = JSONDecodeError \<or> errs ! Suc t = APIError)" by blast
        then show "outcome loads create ws ?w t = Inl (es ! t) \<and>
               (es ! t = JSONDecodeError \<or> es ! t = APIError)"
          using Cons by (simp add: outcome_def)
      qed
      show "length es < length atts \<longrightarrow> \<not> retryable (outcome loads create ws ?w (length es))"
        using Cons.prems(3) Cons by (simp add: outcome_def)
    qed
    with e Cons show ?thesis
      by (auto simp: Let_def sleeps_handler)
  qed
qed

lemma outcome_array:
  "create (calls w + t) (prompt ws) = Message (body # others) \<Longrightarrow>
   loads (extract_json body) = Inr (JArr cs) \<Longrightarrow>
   outcome loads create ws w t =
     Inr (JArr (take (length ws) cs @ map define_clue (drop (length cs) ws)))"
  by (simp add: outcome_def attempt_body_def fix_length_JArr)

lemmas double_defs = double_def fixed_chunks_def never_def unflushed_def scripted_def fresh_def
  table_def

section \<open>The enrichment client absorbs the failures it names\<close>

text \<open>
  C1. The claim is that \<^verbatim>\<open>generate_clues_batch\<close> returns a list of clues for every batch and
  never raises, and that it returns the placeholder batch, whose \<open>i\<close>-th element is
  \<^verbatim>\<open>"Define: <word_i>"\<close>, when every attempt fails. Lines 111 to 119 catch two exceptions only:
  \<^verbatim>\<open>anthropic.APIError\<close> and \<^verbatim>\<open>json.JSONDecodeError\<close>; \<open>retryable\<close> holds of an attempt that ends
  in one of the two. As amended: when every attempt ends in an \<^verbatim>\<open>APIError\<close>, in a
  \<^verbatim>\<open>JSONDecodeError\<close> of \<^verbatim>\<open>json.loads\<close>, or in a text that \<^verbatim>\<open>json.loads\<close> parses to a JSON array,
  the function returns a list with one element per word; and when every attempt ends in an
  \<^verbatim>\<open>APIError\<close> or a \<^verbatim>\<open>JSONDecodeError\<close>, it returns exactly the placeholder batch. Nothing is
  said of an attempt that ends in another exception: it leaves the function (lemma
  \<open>generate_clues_batch_other_exception\<close> below), as \<^verbatim>\<open>json.loads\<close> does with a
  \<^verbatim>\<open>RecursionError\<close> on a deeply nested text and with a \<^verbatim>\<open>ValueError\<close> on a very long integer.
\<close>

theorem generate_clues_batch_absorbs:
  "((\<forall>t<MAX_RETRIES. retryable (outcome loads create ws w t) \<or>
       (\<exists>body others cs. create (calls w + t) (prompt ws) = Message (body # others) \<and>
           loads (extract_json body) = Inr (JArr cs))) \<longrightarrow>
     (\<exists>r. fst (generate_clues_batch loads create ws w) = Inr (JArr r) \<and>
          length r = length ws)) \<and>
   ((\<forall>t<MAX_RETRIES. retryable (outcome loads create ws w t)) \<longrightarrow>
      fst (generate_clues_batch loads create ws w) = Inr (JArr (map define_clue ws)) \<and>
      (\<forall>i<length ws. map define_clue ws ! i = JStr (''Define: '' @ ws ! i)))"
proof (intro conjI impI)
  assume H: "\<forall>t<MAX_RETRIES. retryable (outcome loads create ws w t) \<or>
       (\<exists>body others cs. create (calls w + t) (prompt ws) = Message (body # others) \<and>
           loads (extract_json body) = Inr (JArr cs))"
  show "\<exists>r. fst (generate_clues_batch loads create ws w) = Inr (JArr r) \<and>
          length r = length ws"
  proof (cases "\<forall>t<MAX_RETRIES. retryable (outcome loads create ws w t)")
    case True
    then have "fst (retry loads create ws [0..<MAX_RETRIES] w) = Inr (JArr (map define_clue ws))"
      by (intro retry_all_fail) simp
    then show ?thesis by (simp add: generate_clues_batch_def)
  next
    case False
    define s where "s = (LEAST t. t < MAX_RETRIES \<and> \<not> retryable (outcome loads create ws w t))"
    from False have ex: "\<exists>t. t < MAX_RETRIES \<and> \<not> retryable (outcome loads create ws w t)" by blast
    then have s: "s < MAX_RETRIES" "\<not> retryable (outcome loads create ws w s)"
      unfolding s_def using LeastI_ex [OF ex] by blast+
    have before: "\<forall>t<s. retryable (outcome loads create ws w t)"
    proof (intro allI impI)
      fix t assume "t < s"
      then have "\<not> (t < MAX_RETRIES \<and> \<not> retryable (outcome loads create ws w t))"
        unfolding s_def by (rule not_less_Least)
      with \<open>t < s\<close> s(1) show "retryable (outcome loads create ws w t)" by simp
    qed
    from H s obtain body others cs where
      "create (calls w + s) (prompt ws) = Message (body # others)"
      "loads (extract_json body) = Inr (JArr cs)" by blast
    then have o: "outcome loads create ws w s =
      Inr (JArr (take (length ws) cs @ map define_clue (drop (length cs) ws)))"
      by (rule outcome_array)
    have "fst (retry loads create ws [0..<MAX_RETRIES] w) = outcome loads create ws w s"
      using s before by (intro retry_first_final) simp_all
    with o show ?thesis by (simp add: generate_clues_batch_def)
  qed
next
  assume "\<forall>t<MAX_RETRIES. retryable (outcome loads create ws w t)"
  then have "fst (retry loads create ws [0..<MAX_RETRIES] w) = Inr (JArr (map define_clue ws))"
    by (intro retry_all_fail) simp
  then show "fst (generate_clues_batch loads create ws w) = Inr (JArr (map define_clue ws))"
    by (simp add: generate_clues_batch_def)
next
  show "\<forall>i<length ws. map define_clue ws ! i = JStr (''Define: '' @ ws ! i)"
    by (simp add: define_clue_def)
qed

text \<open>
  The witness runs the amended statement on two services: one that fails twice and then
  answers with an array, and one that fails on every call.
\<close>

theorem generate_clues_batch_absorbs_witness:
  "(\<exists>r. fst (generate_clues_batch (table [''[1]'' \<mapsto> JArr [JInt 1]])
          (scripted [Raises_APIError, Message [''oops''], Message [''[1]'']])
          [''cat'', ''dog''] (fresh Map.empty)) = Inr (JArr r) \<and>
        length r = length [''cat'', ''dog'']) \<and>
   fst (generate_clues_batch (table Map.empty) (scripted [Raises_APIError, Message [''oops'']])
          [''cat'', ''dog''] (fresh Map.empty)) =
     Inr (JArr [JStr ''Define: cat'', JStr ''Define: dog''])"
proof -
  have h: "\<forall>t<MAX_RETRIES.
      retryable (outcome (table [''[1]'' \<mapsto> JArr [JInt 1]])
        (scripted [Raises_APIError, Message [''oops''], Message [''[1]'']])
        [''cat'', ''dog''] (fresh Map.empty) t) \<or>
      (\<exists>body others cs.
         scripted [Raises_APIError, Message [''oops''], Message [''[1]'']]
           (calls (fresh Map.empty) + t) (prompt [''cat'', ''dog'']) = Message (body # others) \<and>
         (table [''[1]'' \<mapsto> JArr [JInt 1]]) (extract_json body) = Inr (JArr cs))"
    by (simp add: run_defs All_less_Suc numeral_3_eq_3)
  have f: "\<forall>t<MAX_RETRIES.
      retryable (outcome (table Map.empty) (scripted [Raises_APIError, Message [''oops'']])
        [''cat'', ''dog''] (fresh Map.empty) t)"
    by (simp add: run_defs All_less_Suc numeral_3_eq_3)
  from generate_clues_batch_absorbs
         [of "(table [''[1]'' \<mapsto> JArr [JInt 1]])"
             "scripted [Raises_APIError, Message [''oops''], Message [''[1]'']]"
             "[''cat'', ''dog'']" "fresh Map.empty"] h
  have 1: "\<exists>r. fst (generate_clues_batch (table [''[1]'' \<mapsto> JArr [JInt 1]])
          (scripted [Raises_APIError, Message [''oops''], Message [''[1]'']])
          [''cat'', ''dog''] (fresh Map.empty)) = Inr (JArr r) \<and>
        length r = length [''cat'', ''dog'']"
    by blast
  from generate_clues_batch_absorbs
         [of "table Map.empty" "scripted [Raises_APIError, Message [''oops'']]"
             "[''cat'', ''dog'']" "fresh Map.empty"] f
  have 2: "fst (generate_clues_batch (table Map.empty) (scripted [Raises_APIError, Message [''oops'']])
          [''cat'', ''dog''] (fresh Map.empty)) =
     Inr (JArr [JStr ''Define: cat'', JStr ''Define: dog''])"
    by (simp add: define_clue_def)
  from 1 2 show ?thesis by blast
qed

text \<open>
  The claim as stated fails: the service answers \<^verbatim>\<open>42\<close>, which \<^verbatim>\<open>json.loads\<close> reads as a number,
  and \<^verbatim>\<open>len(clues)\<close> raises a \<^verbatim>\<open>TypeError\<close> that no handler catches.
\<close>

theorem generate_clues_batch_raises_on_number:
  "fst (generate_clues_batch (table [''42'' \<mapsto> JInt 42]) (scripted [Message [''42'']])
          [''cat'', ''dog''] (fresh Map.empty)) = Inl TypeError"
  by (simp add: run_defs)

text \<open>
  An exception of \<^verbatim>\<open>json.loads\<close> that is not a \<^verbatim>\<open>JSONDecodeError\<close> is caught by neither
  handler: it leaves the function on the attempt that meets it, and no sleep follows.
\<close>

lemma generate_clues_batch_other_exception:
  assumes "create (calls w) (prompt ws) = Message (body # others)"
    and "loads (extract_json body) = Inl e"
    and "e \<noteq> JSONDecodeError" and "e \<noteq> APIError"
  shows "fst (generate_clues_batch loads create ws w) = Inl e"
    and "sleeps_of (trace (snd (generate_clues_batch loads create ws w))) = sleeps_of (trace w)"
  using assms
  by (simp_all add: generate_clues_batch_def MAX_RETRIES_def upt_rec attempt_body_def Let_def)

section \<open>Padding and truncation\<close>

text \<open>
  C2. The claim is that for every parsed response the returned list has exactly one element
  per word, short responses being padded at position \<open>i\<close> with \<^verbatim>\<open>"Define: <words[i]>"\<close> and
  long ones cut, without raising. As amended, this holds for every parsed response that is
  a JSON array: on the first attempt that does not fail, an array \<open>cs\<close> gives the list whose
  \<open>i\<close>-th element is \<open>cs ! i\<close> where the array has one and the placeholder for word \<open>i\<close> where
  it has not.
\<close>

theorem generate_clues_batch_length:
  assumes "s < MAX_RETRIES"
    and "\<forall>t<s. retryable (outcome loads create ws w t)"
    and "create (calls w + s) (prompt ws) = Message (body # others)"
    and "loads (extract_json body) = Inr (JArr cs)"
  shows "\<exists>r. fst (generate_clues_batch loads create ws w) = Inr (JArr r) \<and>
           length r = length ws \<and>
           (\<forall>i<length ws. r ! i = (if i < length cs then cs ! i else JStr (''Define: '' @ ws ! i)))"
proof -
  let ?r = "take (length ws) cs @ map define_clue (drop (length cs) ws)"
  have o: "outcome loads create ws w s = Inr (JArr ?r)"
    using assms(3,4) by (rule outcome_array)
  then have "\<not> retryable (outcome loads create ws w s)" by (simp add: retryable_def)
  with assms(1,2) have "fst (retry loads create ws [0..<MAX_RETRIES] w) = outcome loads create ws w s"
    by (intro retry_first_final) simp_all
  with o have 1: "fst (generate_clues_batch loads create ws w) = Inr (JArr ?r)"
    by (simp add: generate_clues_batch_def)
  have 2: "length ?r = length ws" by simp
  have 3: "?r ! i = (if i < length cs then cs ! i else JStr (''Define: '' @ ws ! i))"
    if "i < length ws" for i
    using that by (auto simp: nth_append define_clue_def min_def)
  from 1 2 3 show ?thesis by blast
qed

theorem generate_clues_batch_length_witness:
  "\<exists>r. fst (generate_clues_batch (table [''[1]'' \<mapsto> JArr [JInt 1]])
        (scripted [Raises_APIError, Message [''oops''], Message [''[1]'', ''x'']])
        [''cat'', ''dog''] (fresh Map.empty)) = Inr (JArr r) \<and>
        length r = length [''cat'', ''dog''] \<and>
        (\<forall>i<length [''cat'', ''dog''].
           r ! i = (if i < length [JInt 1] then [JInt 1] ! i
                    else JStr (''Define: '' @ [''cat'', ''dog''] ! i)))"
proof -
  have h1: "(2::nat) < MAX_RETRIES" by (simp add: MAX_RETRIES_def)
  have h2: "\<forall>t<2. retryable (outcome (table [''[1]'' \<mapsto> JArr [JInt 1]])
        (scripted [Raises_APIError, Message [''oops''], Message [''[1]'', ''x'']])
        [''cat'', ''dog''] (fresh Map.empty) t)"
    by (simp add: run_defs All_less_Suc numeral_2_eq_2)
  have h3: "scripted [Raises_APIError, Message [''oops''], Message [''[1]'', ''x'']]
      (calls (fresh Map.empty) + 2) (prompt [''cat'', ''dog'']) = Message (''[1]'' # [''x''])"
    by (simp add: scripted_def fresh_def)
  have h4: "(table [''[1]'' \<mapsto> JArr [JInt 1]]) (extract_json ''[1]'') = Inr (JArr [JInt 1])"
    by (simp add: run_defs)
  from generate_clues_batch_length [OF h1 h2 h3 h4] show ?thesis .
qed

text \<open>
  The claim as stated fails: the service answers \<^verbatim>\<open>{}\<close>, a parsed response with fewer entries
  than the batch has words; the padding loop calls \<^verbatim>\<open>append\<close> on a dict and the
  \<^verbatim>\<open>AttributeError\<close> leaves the function.
\<close>

theorem length_correction_raises_on_object:
  "fst (generate_clues_batch (table [''{}'' \<mapsto> JObj []]) (scripted [Message [''{}'']]) [''cat'']
          (fresh Map.empty)) = Inl AttributeError"
  by (simp add: run_defs)

section \<open>Delays between attempts\<close>

text \<open>
  What the two handlers sleep. Let attempts \<open>0\<close> to \<open>length errs - 1\<close> fail with the errors
  \<open>errs\<close>, each an \<^verbatim>\<open>APIError\<close> or a \<^verbatim>\<open>JSONDecodeError\<close>. Then the client sleeps once after each
  of them that is not the last of the \<open>MAX_RETRIES\<close> attempts: \<open>RETRY_DELAY * (t + 1)\<close>
  seconds after an \<^verbatim>\<open>APIError\<close> on attempt \<open>t\<close> (line 119), and \<open>RETRY_DELAY\<close> seconds after a
  \<^verbatim>\<open>JSONDecodeError\<close> (line 115). When all the errors are \<^verbatim>\<open>APIError\<close>s the delays strictly
  increase.
\<close>

lemma retry_delays:
  assumes "length errs \<le> MAX_RETRIES"
    and "\<forall>t<length errs. outcome loads create ws w t = Inl (errs ! t) \<and>
           (errs ! t = JSONDecodeError \<or> errs ! t = APIError)"
    and "length errs < MAX_RETRIES \<longrightarrow> \<not> retryable (outcome loads create ws w (length errs))"
  shows "sleeps_of (trace (snd (generate_clues_batch loads create ws w))) =
           sleeps_of (trace w) @
             map (\<lambda>t. if errs ! t = JSONDecodeError then seconds RETRY_DELAY
                       else seconds (RETRY_DELAY * (t + 1)))
               [0..<min (length errs) (MAX_RETRIES - 1)] \<and>
         ((\<forall>t<length errs. errs ! t = APIError) \<longrightarrow>
            sorted_wrt (<)
              (map (\<lambda>t. if errs ! t = JSONDecodeError then seconds RETRY_DELAY
                        else seconds (RETRY_DELAY * (t + 1)))
                 [0..<min (length errs) (MAX_RETRIES - 1)]))"
proof -
  have "sleeps_of (trace (snd (retry loads create ws [0..<MAX_RETRIES] w))) =
     sleeps_of (trace w) @
       concat (map (\<lambda>(e, a). if a < MAX_RETRIES - 1
                 then [if e = JSONDecodeError then seconds RETRY_DELAY
                       else seconds (RETRY_DELAY * (a + 1))]
                 else []) (zip errs [0..<MAX_RETRIES]))"
    using assms by (intro retry_sleeps) simp_all
  moreover have "concat (map (\<lambda>(e, a). if a < MAX_RETRIES - 1
                 then [if e = JSONDecodeError then seconds RETRY_DELAY
                       else seconds (RETRY_DELAY * (a + 1))]
                 else []) (zip errs [0..<MAX_RETRIES])) =
     map (\<lambda>t. if errs ! t = JSONDecodeError then seconds RETRY_DELAY
                       else seconds (RETRY_DELAY * (t + 1)))
               [0..<min (length errs) (MAX_RETRIES - 1)]"
  proof -
    have "length errs = 0 \<or> length errs = Suc 0 \<or> length errs = Suc (Suc 0) \<or>
          length errs = Suc (Suc (Suc 0))"
      using assms(1) unfolding MAX_RETRIES_def by arith
    then consider "errs = []" | a where "errs = [a]" | a b where "errs = [a, b]"
      | a b c where "errs = [a, b, c]"
      by (auto simp: length_Suc_conv)
    then show ?thesis
      by cases (simp_all add: MAX_RETRIES_def upt_rec)
  qed
  ultimately have eq: "sleeps_of (trace (snd (generate_clues_batch loads create ws w))) =
           sleeps_of (trace w) @
             map (\<lambda>t. if errs ! t = JSONDecodeError then seconds RETRY_DELAY
                       else seconds (RETRY_DELAY * (t + 1)))
               [0..<min (length errs) (MAX_RETRIES - 1)]"
    by (simp add: generate_clues_batch_def)
  have inc: "sorted_wrt (<)
              (map (\<lambda>t. if errs ! t = JSONDecodeError then seconds RETRY_DELAY
                        else seconds (RETRY_DELAY * (t + 1)))
                 [0..<min (length errs) (MAX_RETRIES - 1)])"
    if api: "\<forall>t<length errs. errs ! t = APIError"
  proof -
    have "sorted_wrt (\<lambda>s t. (if errs ! s = JSONDecodeError then seconds RETRY_DELAY
                        else seconds (RETRY_DELAY * (s + 1))) <
                     (if errs ! t = JSONDecodeError then seconds RETRY_DELAY
                        else seconds (RETRY_DELAY * (t + 1))))
            [0..<min (length errs) (MAX_RETRIES - 1)]"
    proof (rule sorted_wrt_mono_rel [OF _ sorted_wrt_upt])
      fix s t
      assume "s \<in> set [0..<min (length errs) (MAX_RETRIES - 1)]"
        "t \<in> set [0..<min (length errs) (MAX_RETRIES - 1)]" "s < t"
      with api show "(if errs ! s = JSONDecodeError then seconds RETRY_DELAY
                        else seconds (RETRY_DELAY * (s + 1))) <
                     (if errs ! t = JSONDecodeError then seconds RETRY_DELAY
                        else seconds (RETRY_DELAY * (t + 1)))"
        by (simp add: seconds_def RETRY_DELAY_def)
    qed
    then show ?thesis by (simp add: sorted_wrt_map)
  qed
  from eq inc show ?thesis by blast
qed

text \<open>
  Three service errors: the client sleeps five seconds, then ten.
\<close>

lemma api_error_delays_grow:
  "sleeps_of (trace (snd (generate_clues_batch (table Map.empty) (scripted []) [''cat'']
       (fresh Map.empty)))) = [5000, 10000]"
proof -
  have h1: "length [APIError, APIError, APIError] \<le> MAX_RETRIES" by (simp add: MAX_RETRIES_def)
  have h2: "\<forall>t<length [APIError, APIError, APIError].
      outcome (table Map.empty) (scripted []) [''cat''] (fresh Map.empty) t =
        Inl ([APIError, APIError, APIError] ! t) \<and>
      ([APIError, APIError, APIError] ! t = JSONDecodeError \<or>
       [APIError, APIError, APIError] ! t = APIError)"
    by (simp add: run_defs All_less_Suc numeral_3_eq_3)
  have h3: "length [APIError, APIError, APIError] < MAX_RETRIES \<longrightarrow>
     \<not> retryable (outcome (table Map.empty) (scripted []) [''cat''] (fresh Map.empty)
           (length [APIError, APIError, APIError]))"
    by (simp add: MAX_RETRIES_def)
  from retry_delays [OF h1 h2 h3] show ?thesis
    by (simp add: MAX_RETRIES_def RETRY_DELAY_def seconds_def fresh_def upt_rec)
qed

text \<open>
  C9. The claim is that after every transient failure on an attempt that is not the last,
  service error or parse failure alike, the client sleeps for a delay that strictly grows
  with the attempt number. The handler of \<^verbatim>\<open>APIError\<close> does so (line 119, and
  \<open>api_error_delays_grow\<close> above: five seconds, then ten). The handler of
  \<^verbatim>\<open>JSONDecodeError\<close> beside it sleeps \<^verbatim>\<open>RETRY_DELAY\<close> whatever the attempt (line 115): when the
  service answers \<^verbatim>\<open>oops\<close>, which is no JSON, on all three attempts for the batch \<^verbatim>\<open>['cat']\<close>,
  the client sleeps five seconds after the first attempt and five seconds again after the
  second.
\<close>

theorem parse_failure_delay_constant:
  "sleeps_of (trace (snd (generate_clues_batch (table Map.empty)
      (scripted [Message [''oops''], Message [''oops''], Message [''oops'']]) [''cat'']
      (fresh Map.empty)))) = [5000, 5000]"
  by (simp add: run_defs)

section \<open>The batcher\<close>

lemma batch_indices_eq: "batch_indices B xs n = take B (drop (n * B) xs)"
proof (cases "n * B + B \<le> length xs")
  case True
  then show ?thesis by (simp add: batch_indices_def Let_def min_def)
next
  case False
  then have "length (drop (n * B) xs) \<le> B" by simp
  then have "take B (drop (n * B) xs) = drop (n * B) xs" by simp
  moreover from False have "take (length xs - n * B) (drop (n * B) xs) = drop (n * B) xs" by simp
  ultimately show ?thesis using False by (simp add: batch_indices_def Let_def min_def)
qed





lemma nth_batches:
  "n < batch_count B xs \<Longrightarrow> batches B xs ! n = take B (drop (n * B) xs)"
  by (simp add: batches_def batch_indices_eq)




section \<open>Pending indices\<close>

lemma set_indices_to_process:
  "set (indices_to_process N C s lim) = {i. s \<le> i \<and> i < end_idx N s lim \<and> i \<notin> C}"
  by (auto simp: indices_to_process_def)

lemma sorted_indices_to_process: "sorted_wrt (<) (indices_to_process N C s lim)"
  unfolding indices_to_process_def by (rule sorted_wrt_filter) simp

lemma distinct_indices_to_process: "distinct (indices_to_process N C s lim)"
  by (simp add: indices_to_process_def)

lemma set_batch_subset: "b \<in> set (batches B xs) \<Longrightarrow> set b \<subseteq> set xs"
  by (auto simp: batches_def batch_indices_eq dest: in_set_takeD in_set_dropD)

text \<open>
  What lines 156 to 160 compute: with no limit, or with a limit other than \<open>0\<close>, the pending
  list is the increasing list of the indices from \<open>s\<close> up to, and without, the end of the
  range that are not in the completed set, and no batch holds an index of the completed set.
  This is about indices as numbers: with a negative start offset the list holds negative
  indices, which are never in the completed set of an earlier run from \<open>0\<close> and which Python
  reads from the end of the list, so that an entry whose index is completed can still be
  sent again under its negative index.
\<close>

lemma pending_indices:
  "(lim = None \<longrightarrow>
      set (indices_to_process N C s lim) = {i. s \<le> i \<and> i < int N \<and> i \<notin> C}) \<and>
   (\<forall>l. lim = Some l \<and> l \<noteq> 0 \<longrightarrow>
      set (indices_to_process N C s lim) = {i. s \<le> i \<and> i < min (int N) (s + l) \<and> i \<notin> C}) \<and>
   sorted_wrt (<) (indices_to_process N C s lim) \<and>
   (\<forall>b\<in>set (batches B (indices_to_process N C s lim)). set b \<inter> C = {})"
proof (intro conjI impI allI ballI)
  assume "lim = None"
  then show "set (indices_to_process N C s lim) = {i. s \<le> i \<and> i < int N \<and> i \<notin> C}"
    by (simp add: set_indices_to_process end_idx_def)
next
  fix l assume "lim = Some l \<and> l \<noteq> 0"
  then show "set (indices_to_process N C s lim) = {i. s \<le> i \<and> i < min (int N) (s + l) \<and> i \<notin> C}"
    by (simp add: set_indices_to_process end_idx_def add.commute)
next
  show "sorted_wrt (<) (indices_to_process N C s lim)" by (rule sorted_indices_to_process)
next
  fix b assume "b \<in> set (batches B (indices_to_process N C s lim))"
  then have "set b \<subseteq> set (indices_to_process N C s lim)" by (rule set_batch_subset)
  then show "set b \<inter> C = {}" by (auto simp: set_indices_to_process)
qed

text \<open>
  C4. The claim is that for every start offset and optional limit the pending list is the
  indices of \<open>[start, min(N, start + limit))\<close> that are not completed. With \<^verbatim>\<open>--limit 0\<close> that
  range is empty, but \<^verbatim>\<open>if args.limit\<close> takes \<open>0\<close> for a missing limit and the script selects
  every index from the start offset on.
\<close>

theorem limit_zero_selects_everything:
  "indices_to_process 3 {} 0 (Some 0) = [0, 1, 2]"
  by (simp add: indices_to_process_def end_idx_def upto_rec1)

section \<open>The checkpoint store\<close>

text \<open>
  C8. When the checkpoint file exists and cannot be parsed, \<^verbatim>\<open>load_progress\<close> raises (the
  script has no error class of its own: the exception is \<^verbatim>\<open>json.JSONDecodeError\<close>) and
  returns nothing. When the file exists, the result is what the reader makes of its
  text; the empty checkpoint of line 55 is returned as a default only when there is no file.
\<close>

theorem load_progress_corrupt:
  "(\<forall>body. files w PROGRESS_FILE = Some body \<and> load_ckpt x body = None \<longrightarrow>
      load_progress x w = Inl JSONDecodeError) \<and>
   (\<forall>body. files w PROGRESS_FILE = Some body \<longrightarrow>
      load_progress x w =
        (case load_ckpt x body of None \<Rightarrow> Inl JSONDecodeError | Some p \<Rightarrow> Inr p)) \<and>
   (files w PROGRESS_FILE = None \<longrightarrow>
      load_progress x w = Inr \<lparr>completed_indices = {}, clues = Map.empty\<rparr>)"
  by (simp add: load_progress_def)

theorem load_progress_corrupt_witness:
  "load_progress (double Map.empty Map.empty Map.empty []) (fresh [PROGRESS_FILE \<mapsto> ''{'']) =
     Inl JSONDecodeError \<and>
   load_progress (double Map.empty Map.empty Map.empty []) (fresh Map.empty) =
     Inr \<lparr>completed_indices = {}, clues = Map.empty\<rparr>"
  using load_progress_corrupt [of "fresh [PROGRESS_FILE \<mapsto> ''{'']" "double Map.empty Map.empty Map.empty []"]
    load_progress_corrupt [of "fresh Map.empty" "double Map.empty Map.empty Map.empty []"]
  by (simp add: double_defs)

lemma content_upd [simp]: "content (fs(p \<mapsto> s)) p = s"
  by (simp add: content_def)

lemma fold_chunk_writes:
  "fs p = Some d0 \<Longrightarrow> bs p = Some b0 \<Longrightarrow>
   \<exists>d b. foldl apply_event (fs, bs) (chunk_writes fl t p cs) = (fs(p \<mapsto> d), bs(p \<mapsto> b)) \<and>
         d @ b = d0 @ b0 @ concat cs"
proof (induction cs arbitrary: fs bs t d0 b0)
  case Nil
  then have "fs(p \<mapsto> d0) = fs" "bs(p \<mapsto> b0) = bs" by auto
  then show ?case by (intro exI [of _ d0] exI [of _ b0]) simp
next
  case (Cons c cs)
  let ?n = "fl t"
  let ?d1 = "d0 @ take ?n (b0 @ c)"
  let ?b1 = "drop ?n (b0 @ c)"
  have step: "apply_event (fs, bs) (Write p c ?n) = (fs(p \<mapsto> ?d1), bs(p \<mapsto> ?b1))"
    using Cons.prems by (simp add: content_def)
  have "\<exists>d b. foldl apply_event (fs(p \<mapsto> ?d1), bs(p \<mapsto> ?b1)) (chunk_writes fl (Suc t) p cs) =
            ((fs(p \<mapsto> ?d1))(p \<mapsto> d), (bs(p \<mapsto> ?b1))(p \<mapsto> b)) \<and>
          d @ b = ?d1 @ ?b1 @ concat cs"
    by (rule Cons.IH) simp_all
  then obtain d b where
    db: "foldl apply_event (fs(p \<mapsto> ?d1), bs(p \<mapsto> ?b1)) (chunk_writes fl (Suc t) p cs) =
            (fs(p \<mapsto> d), bs(p \<mapsto> b))"
        "d @ b = ?d1 @ ?b1 @ concat cs" by auto
  have "take ?n (b0 @ c) @ drop ?n (b0 @ c) = b0 @ c" by (rule append_take_drop_id)
  then have "?d1 @ ?b1 @ concat cs = d0 @ b0 @ concat (c # cs)"
    by (metis append_assoc concat.simps(2))
  with db(2) have "d @ b = d0 @ b0 @ concat (c # cs)" by simp
  moreover have "foldl apply_event (fs, bs) (chunk_writes fl t p (c # cs)) =
      (fs(p \<mapsto> d), bs(p \<mapsto> b))" using db(1) step by simp
  ultimately show ?case by blast
qed

lemma take_chunk_writes: "take j (chunk_writes fl t p cs) = chunk_writes fl t p (take j cs)"
proof (induction cs arbitrary: j t)
  case Nil
  then show ?case by simp
next
  case (Cons c cs)
  then show ?case by (cases j) simp_all
qed

lemma length_chunk_writes [simp]: "length (chunk_writes fl t p cs) = length cs"
  by (induction cs arbitrary: t) simp_all

lemma no_remove_chunk_writes: "Remove q \<notin> set (chunk_writes fl t p cs)"
  by (induction cs arbitrary: t) simp_all

lemma fold_opened:
  "\<exists>d b. foldl apply_event (fs, bs) (Open_w p # chunk_writes fl t p cs) =
            (fs(p \<mapsto> d), bs(p \<mapsto> b)) \<and> d @ b = concat cs"
proof -
  have "\<exists>d b. foldl apply_event (fs(p \<mapsto> []), bs(p \<mapsto> [])) (chunk_writes fl t p cs) =
            ((fs(p \<mapsto> []))(p \<mapsto> d), (bs(p \<mapsto> []))(p \<mapsto> b)) \<and>
          d @ b = [] @ [] @ concat cs"
    by (rule fold_chunk_writes) simp_all
  then show ?thesis by simp
qed

lemma fold_closed:
  "foldl apply_event (fs, bs) (Open_w p # chunk_writes fl t p cs @ [Close p]) =
     (fs(p \<mapsto> concat cs), bs(p := None))"
proof -
  from fold_opened [of fs bs p fl t cs] obtain d b where
    o: "foldl apply_event (fs, bs) (Open_w p # chunk_writes fl t p cs) = (fs(p \<mapsto> d), bs(p \<mapsto> b))"
    "d @ b = concat cs" by blast
  have "foldl apply_event (fs, bs) (Open_w p # chunk_writes fl t p cs @ [Close p]) =
      apply_event (foldl apply_event (fs, bs) (Open_w p # chunk_writes fl t p cs)) (Close p)"
    by (metis append_Cons foldl_Cons foldl_Nil foldl_append)
  with o show ?thesis by (simp add: content_def)
qed

lemma write_chunks_run:
  "write_chunks fails fl p cs w = (r, w') \<Longrightarrow>
   \<exists>j\<le>length cs.
      trace w' = trace w @ chunk_writes fl (length (trace w)) p (take j cs) \<and>
      (files w', buffers w') =
        foldl apply_event (files w, buffers w) (chunk_writes fl (length (trace w)) p (take j cs)) \<and>
      calls w' = calls w \<and> (r = None \<longleftrightarrow> j = length cs) \<and> (r = None \<or> r = Some OSError)"
proof (induction cs arbitrary: w)
  case Nil
  then show ?case by auto
next
  case (Cons c cs)
  show ?case
  proof (cases "fails (length (trace w))")
    case True
    with Cons.prems have "r = Some OSError" "w' = w" by auto
    then show ?thesis by (intro exI [of _ 0]) simp
  next
    case False
    let ?w = "emit (Write p c (fl (length (trace w)))) w"
    from False Cons.prems have "write_chunks fails fl p cs ?w = (r, w')" by simp
    from Cons.IH [OF this] obtain j where j: "j \<le> length cs"
      "trace w' = trace ?w @ chunk_writes fl (length (trace ?w)) p (take j cs)"
      "(files w', buffers w') =
        foldl apply_event (files ?w, buffers ?w) (chunk_writes fl (length (trace ?w)) p (take j cs))"
      "calls w' = calls ?w" "r = None \<longleftrightarrow> j = length cs" "r = None \<or> r = Some OSError"
      by blast
    then show ?thesis by (intro exI [of _ "Suc j"]) simp
  qed
qed

lemma write_file_run:
  assumes "write_file fails fl p cs w = (r, w')"
  shows "(r = Some OSError \<and> w' = w) \<or>
     (\<exists>j\<le>length cs.
        trace w' = trace w @ Open_w p # chunk_writes fl (Suc (length (trace w))) p (take j cs) @ [Close p] \<and>
        files w' = (files w)(p \<mapsto> concat (take j cs)) \<and>
        buffers w' = (buffers w)(p := None) \<and>
        calls w' = calls w \<and> (r = None \<longleftrightarrow> j = length cs) \<and> (r = None \<or> r = Some OSError))"
proof (cases "fails (length (trace w))")
  case True
  with assms show ?thesis by (simp add: write_file_def)
next
  case False
  let ?w = "emit (Open_w p) w"
  obtain r1 w1 where wc: "write_chunks fails fl p cs ?w = (r1, w1)"
    by (cases "write_chunks fails fl p cs ?w")
  with False assms have r: "r = r1" and w': "w' = emit (Close p) w1"
    by (simp_all add: write_file_def)
  from write_chunks_run [OF wc] obtain j where j: "j \<le> length cs"
    "trace w1 = trace ?w @ chunk_writes fl (length (trace ?w)) p (take j cs)"
    "(files w1, buffers w1) =
        foldl apply_event (files ?w, buffers ?w) (chunk_writes fl (length (trace ?w)) p (take j cs))"
    "calls w1 = calls ?w" "r1 = None \<longleftrightarrow> j = length cs" "r1 = None \<or> r1 = Some OSError"
    by blast
  let ?W = "chunk_writes fl (Suc (length (trace w))) p (take j cs)"
  have "(files w1, buffers w1) = foldl apply_event (files w, buffers w) (Open_w p # ?W)"
    using j(3) by simp
  then have "apply_event (files w1, buffers w1) (Close p) =
      foldl apply_event (files w, buffers w) (Open_w p # ?W @ [Close p])"
    by (metis append_Cons foldl_Cons foldl_Nil foldl_append)
  also have "\<dots> = ((files w)(p \<mapsto> concat (take j cs)), (buffers w)(p := None))"
    by (rule fold_closed)
  finally have fb: "apply_event (files w1, buffers w1) (Close p) =
      ((files w)(p \<mapsto> concat (take j cs)), (buffers w)(p := None))" .
  have "trace w' = trace w @ Open_w p # ?W @ [Close p]" using w' j(2) by simp
  moreover have "files w' = (files w)(p \<mapsto> concat (take j cs))" using w' fb by simp
  moreover have "buffers w' = (buffers w)(p := None)" using w' fb by simp
  moreover have "calls w' = calls w" using w' j(4) by simp
  ultimately show ?thesis using j(1,5,6) r by blast
qed

lemma write_file_ok:
  assumes "write_file fails fl p cs w = (None, w')"
  shows "trace w' = trace w @ write_effects fl (length (trace w)) p cs"
    and "files w' = (files w)(p \<mapsto> concat cs)" and "calls w' = calls w"
    and "buffers w' = (buffers w)(p := None)"
  using write_file_run [OF assms] by (auto simp: write_effects_def)

lemma no_remove_write_effects: "Remove q \<notin> set (write_effects fl t p cs)"
  by (simp add: write_effects_def no_remove_chunk_writes)

lemma write_file_no_remove:
  assumes "write_file fails fl p cs w = (r, w')"
  shows "\<exists>ext. trace w' = trace w @ ext \<and> (\<forall>q. Remove q \<notin> set ext)"
proof -
  from write_file_run [OF assms] consider "w' = w"
    | j where "trace w' = trace w @ Open_w p # chunk_writes fl (Suc (length (trace w))) p (take j cs) @ [Close p]"
    by blast
  then show ?thesis
  proof cases
    case 1
    then show ?thesis by (intro exI [of _ "[]"]) simp
  next
    case 2
    then show ?thesis
      by (intro exI [of _ "Open_w p # chunk_writes fl (Suc (length (trace w))) p (take j cs) @ [Close p]"])
        (simp add: no_remove_chunk_writes)
  qed
qed

section \<open>Saving the checkpoint\<close>

text \<open>
  C3. The claim is that \<^verbatim>\<open>save_progress\<close> replaces the checkpoint file atomically, through a
  temporary file: after any prefix of its file-system effects the file is the previous
  checkpoint, untouched, or the complete new one. Lines 58 to 61 have no temporary file
  and no replace: they open the checkpoint file itself for writing, which empties it, and
  \<^verbatim>\<open>json.dump\<close> writes the new text chunk by chunk into the file object, which keeps text in
  its buffer and writes it through when the library chooses (\<open>flushes x\<close>), at the latest
  when the file is closed. As amended, for every checkpoint value and every such choice:
  after none of the effects the file is the previous checkpoint, untouched; after the first
  effect, the truncation, it is empty; after any longer prefix of the effects it holds a
  prefix of the new text (\<open>written\<close>, with \<open>rest\<close> still to come), which may be empty; after
  all the effects, the close included, it holds the complete new text. A save that returns
  has performed all of them.
\<close>

theorem save_progress_in_place:
  "(\<forall>k\<le>length (save_progress_effects x pr t).
      \<exists>written rest.
        written @ rest = concat (dump_ckpt x pr) \<and>
        fst (foldl apply_event (fs, bs) (take k (save_progress_effects x pr t))) PROGRESS_FILE =
          (if k = 0 then fs PROGRESS_FILE else Some written) \<and>
        (k = 1 \<longrightarrow> written = []) \<and>
        (k = length (save_progress_effects x pr t) \<longrightarrow> rest = [])) \<and>
   (\<forall>w'. save_progress x pr w = (None, w') \<longrightarrow>
      trace w' = trace w @ save_progress_effects x pr (length (trace w)) \<and>
      files w' PROGRESS_FILE = Some (concat (dump_ckpt x pr)))"
proof (intro conjI allI impI)
  let ?cs = "dump_ckpt x pr"
  let ?p = PROGRESS_FILE
  let ?E = "save_progress_effects x pr t"
  fix k assume k: "k \<le> length ?E"
  have E: "?E = Open_w ?p # chunk_writes (flushes x) (Suc t) ?p ?cs @ [Close ?p]"
    by (simp add: save_progress_effects_def write_effects_def)
  have lE: "length ?E = Suc (Suc (length ?cs))" by (simp add: E)
  consider "k = 0" | j where "k = Suc j" "j \<le> length ?cs" | "k = length ?E"
    using k lE by (cases k) (auto simp: le_Suc_eq)
  then show "\<exists>written rest.
        written @ rest = concat ?cs \<and>
        fst (foldl apply_event (fs, bs) (take k ?E)) ?p =
          (if k = 0 then fs ?p else Some written) \<and>
        (k = 1 \<longrightarrow> written = []) \<and> (k = length ?E \<longrightarrow> rest = [])"
  proof cases
    case 1
    then show ?thesis using lE by (intro exI [of _ "[]"] exI [of _ "concat ?cs"]) simp
  next
    case 2
    have "take k ?E = Open_w ?p # chunk_writes (flushes x) (Suc t) ?p (take j ?cs)"
      using 2 by (simp add: E take_chunk_writes)
    moreover from fold_opened [of fs bs ?p "flushes x" "Suc t" "take j ?cs"] obtain d b where
      "foldl apply_event (fs, bs) (Open_w ?p # chunk_writes (flushes x) (Suc t) ?p (take j ?cs)) =
         (fs(?p \<mapsto> d), bs(?p \<mapsto> b))" "d @ b = concat (take j ?cs)" by blast
    ultimately have f: "fst (foldl apply_event (fs, bs) (take k ?E)) ?p = Some d"
      and db: "d @ b = concat (take j ?cs)" by simp_all
    have "concat (take j ?cs) @ concat (drop j ?cs) = concat ?cs"
      by (metis append_take_drop_id concat_append)
    with db have "d @ (b @ concat (drop j ?cs)) = concat ?cs" by (metis append_assoc)
    moreover have "k = 1 \<longrightarrow> d = []" using 2(1) db by auto
    moreover have "k \<noteq> length ?E" using 2 lE by simp
    ultimately show ?thesis using f 2(1) by (intro exI [of _ d] exI [of _ "b @ concat (drop j ?cs)"]) simp
  next
    case 3
    then have "take k ?E = ?E" by simp
    then have "foldl apply_event (fs, bs) (take k ?E) = (fs(?p \<mapsto> concat ?cs), bs(?p := None))"
      by (simp only: E fold_closed)
    then show ?thesis using 3 lE by (intro exI [of _ "concat ?cs"] exI [of _ "[]"]) simp
  qed
next
  fix w' assume "save_progress x pr w = (None, w')"
  then have wf: "write_file (io_fails x) (flushes x) PROGRESS_FILE (dump_ckpt x pr) w = (None, w')"
    by (simp add: save_progress_def)
  from write_file_ok(1) [OF wf]
  show "trace w' = trace w @ save_progress_effects x pr (length (trace w))"
    by (simp add: save_progress_effects_def)
  from write_file_ok(2) [OF wf]
  show "files w' PROGRESS_FILE = Some (concat (dump_ckpt x pr))" by simp
qed

lemmas effect_defs = save_progress_effects_def write_effects_def content_def

text \<open>
  The claim as stated fails: the file holds \<^verbatim>\<open>{old}\<close>, the new text is \<^verbatim>\<open>{checkpoint}\<close>, and
  after the opening and two writes, none of them written through, the file is empty.
\<close>

theorem save_progress_leaves_empty_file:
  "fst (foldl apply_event ([PROGRESS_FILE \<mapsto> ''{old}''], Map.empty)
     (take 3 (save_progress_effects (double Map.empty Map.empty Map.empty [])
        \<lparr>completed_indices = {0}, clues = [''0'' \<mapsto> JStr ''a'']\<rparr> 0))) PROGRESS_FILE = Some [] \<and>
   concat (dump_ckpt (double Map.empty Map.empty Map.empty [])
        \<lparr>completed_indices = {0}, clues = [''0'' \<mapsto> JStr ''a'']\<rparr>) = ''{checkpoint}''"
  by (simp add: effect_defs double_defs)

text \<open>
  The witness saves the same checkpoint over the same file: the run performs the five
  effects and leaves the new text; after three of them the file holds a prefix of it.
\<close>

theorem save_progress_in_place_witness:
  "(\<exists>w'. save_progress (double Map.empty Map.empty Map.empty [])
        \<lparr>completed_indices = {0}, clues = [''0'' \<mapsto> JStr ''a'']\<rparr>
        (fresh [PROGRESS_FILE \<mapsto> ''{old}'']) = (None, w') \<and>
     files w' PROGRESS_FILE = Some ''{checkpoint}'' \<and>
     trace w' = [Open_w PROGRESS_FILE, Write PROGRESS_FILE ''{'' 0,
                 Write PROGRESS_FILE ''checkpoint'' 0, Write PROGRESS_FILE ''}'' 0,
                 Close PROGRESS_FILE]) \<and>
   (\<exists>written rest. written @ rest = ''{checkpoint}'' \<and>
      fst (foldl apply_event ([PROGRESS_FILE \<mapsto> ''{old}''], Map.empty)
        (take 3 (save_progress_effects (double Map.empty Map.empty Map.empty [])
           \<lparr>completed_indices = {0}, clues = [''0'' \<mapsto> JStr ''a'']\<rparr> 0))) PROGRESS_FILE =
        Some written)"
proof -
  let ?x = "double Map.empty Map.empty Map.empty []"
  let ?pr = "\<lparr>completed_indices = {0}, clues = [''0'' \<mapsto> JStr ''a'']\<rparr>"
  let ?w = "fresh [PROGRESS_FILE \<mapsto> ''{old}'']"
  obtain r w' where s: "save_progress ?x ?pr ?w = (r, w')" by (cases "save_progress ?x ?pr ?w")
  have "fst (save_progress ?x ?pr ?w) = None"
    by (simp add: save_progress_def write_file_def double_defs split: prod.splits)
  with s have r: "r = None" by simp
  note inst = save_progress_in_place [of ?x ?pr 0 "[PROGRESS_FILE \<mapsto> ''{old}'']" Map.empty ?w]
  from inst s r
  have "trace w' = trace ?w @ save_progress_effects ?x ?pr (length (trace ?w))"
    "files w' PROGRESS_FILE = Some (concat (dump_ckpt ?x ?pr))" by simp_all
  then have 1: "trace w' = [Open_w PROGRESS_FILE, Write PROGRESS_FILE ''{'' 0,
                 Write PROGRESS_FILE ''checkpoint'' 0, Write PROGRESS_FILE ''}'' 0,
                 Close PROGRESS_FILE]"
    "files w' PROGRESS_FILE = Some ''{checkpoint}''"
    by (simp_all add: effect_defs double_defs)
  have k: "3 \<le> length (save_progress_effects ?x ?pr 0)" by (simp add: effect_defs double_defs)
  have c: "concat (dump_ckpt ?x ?pr) = ''{checkpoint}''" by (simp add: double_defs)
  from inst k have "\<exists>written rest. written @ rest = concat (dump_ckpt ?x ?pr) \<and>
      fst (foldl apply_event ([PROGRESS_FILE \<mapsto> ''{old}''], Map.empty)
        (take 3 (save_progress_effects ?x ?pr 0))) PROGRESS_FILE =
        (if (3::nat) = 0 then [PROGRESS_FILE \<mapsto> ''{old}''] PROGRESS_FILE else Some written)"
    by blast
  then have 2: "\<exists>written rest. written @ rest = ''{checkpoint}'' \<and>
      fst (foldl apply_event ([PROGRESS_FILE \<mapsto> ''{old}''], Map.empty)
        (take 3 (save_progress_effects ?x ?pr 0))) PROGRESS_FILE = Some written"
    unfolding c by simp
  from s r 1 2 show ?thesis by blast
qed

section \<open>Indices as text\<close>

lemma digit_inj: "a < 10 \<Longrightarrow> b < 10 \<Longrightarrow> ''0123456789'' ! a = ''0123456789'' ! b \<Longrightarrow> a = b"
proof -
  assume "a < 10" "b < 10" "''0123456789'' ! a = ''0123456789'' ! b"
  moreover have "distinct ''0123456789''" by simp
  ultimately show "a = b" by (simp add: nth_eq_iff_index_eq)
qed

lemma digit_not_minus: "a < 10 \<Longrightarrow> ''0123456789'' ! a \<noteq> CHR ''-''"
proof -
  assume "a < 10"
  then have "''0123456789'' ! a \<in> set ''0123456789''" by (intro nth_mem) simp
  then show ?thesis by auto
qed

lemma str_nat_nonempty: "str_nat n \<noteq> []"
  by (subst str_nat.simps) simp

lemma last_str_nat: "last (str_nat n) = ''0123456789'' ! (n mod 10)"
  by (subst str_nat.simps) simp

lemma butlast_str_nat: "butlast (str_nat n) = (if n < 10 then [] else str_nat (n div 10))"
  by (subst str_nat.simps) simp

lemma hd_str_nat: "hd (str_nat n) \<noteq> CHR ''-''"
proof (induction n rule: str_nat.induct)
  case (1 n)
  show ?case
  proof (cases "n < 10")
    case True
    then show ?thesis by (subst str_nat.simps) (simp add: digit_not_minus)
  next
    case False
    with 1 show ?thesis by (subst str_nat.simps) (simp add: str_nat_nonempty)
  qed
qed

lemma str_nat_inj: "str_nat n = str_nat m \<Longrightarrow> n = m"
proof (induction n arbitrary: m rule: str_nat.induct)
  case (1 n)
  from 1(2) have "last (str_nat n) = last (str_nat m)" by simp
  then have "''0123456789'' ! (n mod 10) = ''0123456789'' ! (m mod 10)" by (simp add: last_str_nat)
  then have md: "n mod 10 = m mod 10" by (intro digit_inj) simp_all
  from 1(2) have bl: "butlast (str_nat n) = butlast (str_nat m)" by simp
  show ?case
  proof (cases "n < 10")
    case True
    with bl have "m < 10" by (auto simp: butlast_str_nat str_nat_nonempty str_nat_nonempty [symmetric] split: if_splits)
    with True md show ?thesis by simp
  next
    case False
    with bl have m: "\<not> m < 10" by (auto simp: butlast_str_nat str_nat_nonempty str_nat_nonempty [symmetric] split: if_splits)
    with False bl have "str_nat (n div 10) = str_nat (m div 10)" by (simp add: butlast_str_nat)
    with 1(1) False have "n div 10 = m div 10" by simp
    with md show ?thesis by (metis div_mult_mod_eq)
  qed
qed

lemma str_int_inj: "str_int i = str_int j \<Longrightarrow> i = j"
proof -
  assume eq: "str_int i = str_int j"
  show "i = j"
  proof (cases "i < 0"; cases "j < 0")
    assume "i < 0" "j < 0"
    with eq have "nat (- i) = nat (- j)" by (auto simp: str_int_def dest: str_nat_inj)
    with \<open>i < 0\<close> \<open>j < 0\<close> show ?thesis by simp
  next
    assume "i < 0" "\<not> j < 0"
    with eq have "CHR ''-'' # str_nat (nat (- i)) = str_nat (nat j)" by (simp add: str_int_def)
    then have "hd (str_nat (nat j)) = CHR ''-''" by (metis list.sel(1))
    then show ?thesis by (simp add: hd_str_nat)
  next
    assume "\<not> i < 0" "j < 0"
    with eq have "str_nat (nat i) = CHR ''-'' # str_nat (nat (- j))" by (simp add: str_int_def)
    then have "hd (str_nat (nat i)) = CHR ''-''" by (metis list.sel(1))
    then show ?thesis by (simp add: hd_str_nat)
  next
    assume "\<not> i < 0" "\<not> j < 0"
    with eq have "nat i = nat j" by (auto simp: str_int_def dest: str_nat_inj)
    with \<open>\<not> i < 0\<close> \<open>\<not> j < 0\<close> show ?thesis by simp
  qed
qed

lemma inj_str_int: "inj_on str_int A"
  by (rule inj_onI) (rule str_int_inj)

section \<open>The merge of a batch\<close>

lemma py_index_range: "py_index n i = Some p \<Longrightarrow> p < n"
  by (auto simp: py_index_def split: if_splits)

lemma merge_sets:
  "merge zs st = Inr st' \<Longrightarrow>
   completed_set st' = completed_set st \<union> fst ` set zs \<and>
   dom (clues_cache st') = dom (clues_cache st) \<union> str_int ` fst ` set zs"
proof (induction zs arbitrary: st)
  case Nil
  then show ?case by simp
next
  case (Cons z zs)
  obtain idx c where z: "z = (idx, c)" by (cases z)
  from Cons.prems z obtain p where p: "py_index (length (words (data st))) idx = Some p"
    by (auto split: option.splits)
  let ?st = "st\<lparr>data := (data st)\<lparr>words :=
                    (words (data st))[p := (words (data st) ! p)\<lparr>clue := Some c\<rparr>]\<rparr>,
                 clues_cache := (clues_cache st)(str_int idx \<mapsto> c),
                 completed_set := insert idx (completed_set st)\<rparr>"
  from Cons.prems z p have "merge zs ?st = Inr st'" by simp
  from Cons.IH [OF this] z show ?case by auto
qed

lemma merge_frame_aux:
  "merge zs st = Inr st' \<Longrightarrow>
   metadata (data st') = metadata (data st) \<and>
   length (words (data st')) = length (words (data st)) \<and>
   (\<forall>p<length (words (data st)).
      word (words (data st') ! p) = word (words (data st) ! p) \<and>
      word_length (words (data st') ! p) = word_length (words (data st) ! p) \<and>
      distinctLetters (words (data st') ! p) = distinctLetters (words (data st) ! p) \<and>
      ((\<forall>i\<in>fst ` set zs. py_index (length (words (data st))) i \<noteq> Some p) \<longrightarrow>
         words (data st') ! p = words (data st) ! p))"
proof (induction zs arbitrary: st)
  case Nil
  then show ?case by simp
next
  case (Cons z zs)
  obtain idx c where z: "z = (idx, c)" by (cases z)
  from Cons.prems z obtain q where q: "py_index (length (words (data st))) idx = Some q"
    by (auto split: option.splits)
  let ?st = "st\<lparr>data := (data st)\<lparr>words :=
                    (words (data st))[q := (words (data st) ! q)\<lparr>clue := Some c\<rparr>]\<rparr>,
                 clues_cache := (clues_cache st)(str_int idx \<mapsto> c),
                 completed_set := insert idx (completed_set st)\<rparr>"
  from Cons.prems z q have m: "merge zs ?st = Inr st'" by simp
  have len: "length (words (data ?st)) = length (words (data st))" by simp
  note IH = Cons.IH [OF m, unfolded len]
  have md: "metadata (data ?st) = metadata (data st)" by simp
  show ?case
  proof (intro conjI allI impI)
    show "metadata (data st') = metadata (data st)" using IH md by simp
    show "length (words (data st')) = length (words (data st))" using IH by simp
  next
    fix p assume p: "p < length (words (data st))"
    have e: "word (words (data ?st) ! p) = word (words (data st) ! p)"
      "word_length (words (data ?st) ! p) = word_length (words (data st) ! p)"
      "distinctLetters (words (data ?st) ! p) = distinctLetters (words (data st) ! p)"
      using p py_index_range [OF q] by (simp_all add: nth_list_update)
    from IH p show "word (words (data st') ! p) = word (words (data st) ! p)" using e by simp
    from IH p show "word_length (words (data st') ! p) = word_length (words (data st) ! p)"
      using e by simp
    from IH p show "distinctLetters (words (data st') ! p) = distinctLetters (words (data st) ! p)"
      using e by simp
    assume out: "\<forall>i\<in>fst ` set (z # zs). py_index (length (words (data st))) i \<noteq> Some p"
    with q z have "q \<noteq> p" by auto
    then have "words (data ?st) ! p = words (data st) ! p" by simp
    moreover from out have "\<forall>i\<in>fst ` set zs. py_index (length (words (data st))) i \<noteq> Some p"
      by simp
    with IH p have "words (data st') ! p = words (data ?st) ! p" by blast
    ultimately show "words (data st') ! p = words (data st) ! p" by simp
  qed
qed

lemma fix_length_len: "fix_length ws c = Inr v \<Longrightarrow> py_len v = Inr (length ws)"
  by (cases c) (auto simp: fix_length_def pad_eq split: if_splits)

lemma attempt_body_len: "attempt_body loads resp ws = Inr v \<Longrightarrow> py_len v = Inr (length ws)"
  by (auto simp: attempt_body_def fix_length_len split: create_result.splits list.splits sum.splits)

lemma retry_len:
  "fst (retry loads create ws atts w) = Inr v \<Longrightarrow> py_len v = Inr (length ws)"
proof (induction atts arbitrary: w)
  case Nil
  then show ?case by auto
next
  case (Cons a atts)
  then show ?case
    by (auto simp: Let_def attempt_body_len split: sum.splits if_splits)
qed

lemma generate_clues_batch_len:
  "generate_clues_batch loads create ws w = (Inr v, w') \<Longrightarrow> py_len v = Inr (length ws)"
  using retry_len [of loads create ws "[0..<MAX_RETRIES]" w v]
  by (simp add: generate_clues_batch_def)

lemma py_iter_len: "py_len v = Inr n \<Longrightarrow> \<exists>cs. py_iter v = Inr cs \<and> length cs = n"
  by (cases v) auto

lemma batch_words_ok:
  "batch_words es idxs = Inr bw \<Longrightarrow>
   length bw = length idxs \<and> (\<forall>i\<in>set idxs. py_index (length es) i \<noteq> None)"
  by (induction idxs arbitrary: bw) (auto split: option.splits sum.splits)

lemma handler_trace:
  "\<exists>ext. trace (handler e a w) = trace w @ ext \<and> (\<forall>p. Remove p \<notin> set ext) \<and>
     files (handler e a w) = files w"
  by (auto simp: handler_def)

lemma retry_trace:
  "\<exists>ext. trace (snd (retry loads create ws atts w)) = trace w @ ext \<and>
     (\<forall>p. Remove p \<notin> set ext) \<and> files (snd (retry loads create ws atts w)) = files w"
proof (induction atts arbitrary: w)
  case Nil
  then show ?case by simp
next
  case (Cons a atts)
  let ?w1 = "emit (Call (prompt ws)) (w\<lparr>calls := calls w + 1\<rparr>)"
  have w1: "trace ?w1 = trace w @ [Call (prompt ws)]" "files ?w1 = files w" by simp_all
  show ?case
  proof (cases "attempt_body loads (create (calls w) (prompt ws)) ws")
    case (Inr v)
    then show ?thesis using w1 by (auto simp: Let_def)
  next
    case (Inl e)
    show ?thesis
    proof (cases "e = JSONDecodeError \<or> e = APIError")
      case False
      with Inl show ?thesis using w1 by (auto simp: Let_def)
    next
      case True
      from handler_trace [of e a ?w1] obtain ext1 where
        h: "trace (handler e a ?w1) = trace ?w1 @ ext1" "\<forall>p. Remove p \<notin> set ext1"
           "files (handler e a ?w1) = files ?w1" by blast
      from Cons.IH [of "handler e a ?w1"] obtain ext2 where
        r: "trace (snd (retry loads create ws atts (handler e a ?w1))) = trace (handler e a ?w1) @ ext2"
           "\<forall>p. Remove p \<notin> set ext2"
           "files (snd (retry loads create ws atts (handler e a ?w1))) = files (handler e a ?w1)"
        by blast
      have "retry loads create ws (a # atts) w = retry loads create ws atts (handler e a ?w1)"
        using Inl True by (auto simp: Let_def)
      with h r w1 show ?thesis
        by (intro exI [of _ "Call (prompt ws) # ext1 @ ext2"]) auto
    qed
  qed
qed

lemma generate_clues_batch_trace:
  "generate_clues_batch loads create ws w = (r, w') \<Longrightarrow>
   \<exists>ext. trace w' = trace w @ ext \<and> (\<forall>p. Remove p \<notin> set ext) \<and> files w' = files w"
  using retry_trace [of loads create ws "[0..<MAX_RETRIES]" w]
  by (simp add: generate_clues_batch_def)

lemma paths_differ: "OUTPUT_FILE \<noteq> PROGRESS_FILE"
  by (simp add: OUTPUT_FILE_def PROGRESS_FILE_def)

lemma process_batch_trace:
  assumes "process_batch x pending n b st w = (r, w')"
  shows "\<exists>ext. trace w' = trace w @ ext \<and> (\<forall>q. Remove q \<notin> set ext)"
proof -
  let ?idxs = "batch_indices BATCH_SIZE pending b"
  show ?thesis
  proof (cases "batch_words (words (data st)) ?idxs")
    case (Inl e)
    with assms show ?thesis by (simp add: process_batch_def)
  next
    case (Inr bw)
    show ?thesis
    proof (cases "bw = []")
      case True
      with Inr assms show ?thesis by (simp add: process_batch_def)
    next
      case False
      obtain g w1 where g: "generate_clues_batch (json_loads x) (messages_create x) bw w = (g, w1)"
        by (cases "generate_clues_batch (json_loads x) (messages_create x) bw w")
      from generate_clues_batch_trace [OF g] obtain ext1 where
        e1: "trace w1 = trace w @ ext1" "\<forall>q. Remove q \<notin> set ext1" by blast
      show ?thesis
      proof (cases g)
        case (Inl e)
        with assms Inr False g have "w' = w1" by (simp add: process_batch_def)
        with e1 show ?thesis by blast
      next
        case cl: (Inr cl)
        show ?thesis
        proof (cases "py_iter cl")
          case (Inl e)
          with assms Inr False g cl have "w' = w1" by (simp add: process_batch_def)
          with e1 show ?thesis by blast
        next
          case cs: (Inr cs)
          show ?thesis
          proof (cases "merge (zip ?idxs cs) st")
            case (Inl e)
            with assms Inr False g cl cs have "w' = w1" by (simp add: process_batch_def)
            with e1 show ?thesis by blast
          next
            case st1: (Inr st1)
            let ?pr = "\<lparr>completed_indices = completed_set st1, clues = clues_cache st1\<rparr>"
            obtain s w2 where s: "save_progress x ?pr w1 = (s, w2)"
              by (cases "save_progress x ?pr w1")
            then have "write_file (io_fails x) (flushes x) PROGRESS_FILE (dump_ckpt x ?pr) w1 = (s, w2)"
              by (simp add: save_progress_def)
            from write_file_no_remove [OF this] obtain ext2 where
              e2: "trace w2 = trace w1 @ ext2" "\<forall>q. Remove q \<notin> set ext2" by blast
            from assms Inr False g cl cs st1 s
            have "w' = w2 \<or> w' = emit (Sleep 500) w2"
              by (auto simp: process_batch_def split: option.splits if_splits)
            then show ?thesis
            proof
              assume "w' = w2"
              with e1 e2 show ?thesis by (intro exI [of _ "ext1 @ ext2"]) auto
            next
              assume "w' = emit (Sleep 500) w2"
              with e1 e2 show ?thesis by (intro exI [of _ "ext1 @ ext2 @ [Sleep 500]"]) auto
            qed
          qed
        qed
      qed
    qed
  qed
qed

lemma process_batch_inv:
  assumes "process_batch x pending n b st w = (Inr st', w')"
  obtains bw cl w1 cs w2 where
    "batch_words (words (data st)) (batch_indices BATCH_SIZE pending b) = Inr bw"
    "bw \<noteq> []"
    "generate_clues_batch (json_loads x) (messages_create x) bw w = (Inr cl, w1)"
    "py_iter cl = Inr cs"
    "merge (zip (batch_indices BATCH_SIZE pending b) cs) st = Inr st'"
    "save_progress x \<lparr>completed_indices = completed_set st', clues = clues_cache st'\<rparr> w1 =
       (None, w2)"
    "w' = (if b < n - 1 then emit (Sleep 500) w2 else w2)"
proof -
  let ?idxs = "batch_indices BATCH_SIZE pending b"
  show thesis
  proof (cases "batch_words (words (data st)) ?idxs")
    case (Inl e)
    with assms show ?thesis by (simp add: process_batch_def)
  next
    case bw: (Inr bw)
    show ?thesis
    proof (cases "bw = []")
      case True
      with bw assms show ?thesis by (simp add: process_batch_def)
    next
      case ne: False
      obtain g w1 where g: "generate_clues_batch (json_loads x) (messages_create x) bw w = (g, w1)"
        by (cases "generate_clues_batch (json_loads x) (messages_create x) bw w")
      show ?thesis
      proof (cases g)
        case (Inl e)
        with assms bw ne g show ?thesis by (simp add: process_batch_def)
      next
        case cl: (Inr cl)
        show ?thesis
        proof (cases "py_iter cl")
          case (Inl e)
          with assms bw ne g cl show ?thesis by (simp add: process_batch_def)
        next
          case cs: (Inr cs)
          show ?thesis
          proof (cases "merge (zip ?idxs cs) st")
            case (Inl e)
            with assms bw ne g cl cs show ?thesis by (simp add: process_batch_def)
          next
            case st1: (Inr st1)
            let ?pr = "\<lparr>completed_indices = completed_set st1, clues = clues_cache st1\<rparr>"
            obtain s w2 where s: "save_progress x ?pr w1 = (s, w2)"
              by (cases "save_progress x ?pr w1")
            show ?thesis
            proof (cases s)
              case (Some e)
              with assms bw ne g cl cs st1 s show ?thesis by (simp add: process_batch_def)
            next
              case None
              with assms bw ne g cl cs st1 s have "st' = st1"
                "w' = (if b < n - 1 then emit (Sleep 500) w2 else w2)"
                by (simp_all add: process_batch_def)
              with bw ne g cl cs st1 s None that show ?thesis by blast
            qed
          qed
        qed
      qed
    qed
  qed
qed

lemma process_batch_ok:
  assumes "process_batch x pending n b st w = (Inr st', w')"
  shows "\<exists>cs. length cs = length (batch_indices BATCH_SIZE pending b) \<and>
            merge (zip (batch_indices BATCH_SIZE pending b) cs) st = Inr st'"
    and "files w' PROGRESS_FILE =
           Some (concat (dump_ckpt x \<lparr>completed_indices = completed_set st',
                                       clues = clues_cache st'\<rparr>))"
    and "\<forall>q. q \<noteq> PROGRESS_FILE \<longrightarrow> files w' q = files w q"
proof -
  let ?idxs = "batch_indices BATCH_SIZE pending b"
  let ?pr = "\<lparr>completed_indices = completed_set st', clues = clues_cache st'\<rparr>"
  from process_batch_inv [OF assms] obtain bw cl w1 cs w2 where
    bw: "batch_words (words (data st)) ?idxs = Inr bw" and
    g: "generate_clues_batch (json_loads x) (messages_create x) bw w = (Inr cl, w1)" and
    cs: "py_iter cl = Inr cs" and
    m: "merge (zip ?idxs cs) st = Inr st'" and
    s: "save_progress x ?pr w1 = (None, w2)" and
    w': "w' = (if b < n - 1 then emit (Sleep 500) w2 else w2)"
    by metis
  from generate_clues_batch_len [OF g] have "py_len cl = Inr (length bw)" .
  from py_iter_len [OF this] cs have lcs: "length cs = length bw" by auto
  from batch_words_ok [OF bw] have lbw: "length bw = length ?idxs" by simp
  from s have wf: "write_file (io_fails x) (flushes x) PROGRESS_FILE (dump_ckpt x ?pr) w1 = (None, w2)"
    by (simp add: save_progress_def)
  from generate_clues_batch_trace [OF g] have f1: "files w1 = files w" by blast
  from write_file_ok(2) [OF wf] f1
  have f2: "files w2 = (files w)(PROGRESS_FILE \<mapsto> concat (dump_ckpt x ?pr))" by simp
  from w' have fw: "files w' = files w2" by auto
  show "\<exists>cs. length cs = length ?idxs \<and> merge (zip ?idxs cs) st = Inr st'"
    using lcs lbw m by auto
  show "files w' PROGRESS_FILE = Some (concat (dump_ckpt x ?pr))"
    using fw f2 by simp
  show "\<forall>q. q \<noteq> PROGRESS_FILE \<longrightarrow> files w' q = files w q"
    using fw f2 by simp
qed

lemma process_batch_sets:
  assumes "process_batch x pending n b st w = (Inr st', w')"
  shows "completed_set st' = completed_set st \<union> set (batch_indices BATCH_SIZE pending b)"
    and "dom (clues_cache st') =
           dom (clues_cache st) \<union> str_int ` set (batch_indices BATCH_SIZE pending b)"
    and "length (words (data st')) = length (words (data st))"
    and "metadata (data st') = metadata (data st)"
proof -
  from process_batch_ok(1) [OF assms] obtain cs where
    cs: "length cs = length (batch_indices BATCH_SIZE pending b)"
        "merge (zip (batch_indices BATCH_SIZE pending b) cs) st = Inr st'" by blast
  from cs(1) have fs: "fst ` set (zip (batch_indices BATCH_SIZE pending b) cs) =
       set (batch_indices BATCH_SIZE pending b)"
    by (metis map_fst_zip set_map)
  from merge_sets [OF cs(2)] fs
  show "completed_set st' = completed_set st \<union> set (batch_indices BATCH_SIZE pending b)"
    and "dom (clues_cache st') =
           dom (clues_cache st) \<union> str_int ` set (batch_indices BATCH_SIZE pending b)"
    by simp_all
  from merge_frame_aux [OF cs(2)]
  show "length (words (data st')) = length (words (data st))"
    and "metadata (data st') = metadata (data st)" by simp_all
qed

lemma run_batches_trace:
  "run_batches x pending n ns st w = (r, w') \<Longrightarrow>
   \<exists>ext. trace w' = trace w @ ext \<and> (\<forall>q. Remove q \<notin> set ext)"
proof (induction ns arbitrary: st w)
  case Nil
  then show ?case by simp
next
  case (Cons b ns)
  obtain r1 w1 where p: "process_batch x pending n b st w = (r1, w1)"
    by (cases "process_batch x pending n b st w")
  from process_batch_trace [OF p] obtain ext1 where
    e1: "trace w1 = trace w @ ext1" "\<forall>q. Remove q \<notin> set ext1" by blast
  show ?case
  proof (cases r1)
    case (Inl e)
    with Cons.prems p have "w' = w1" by simp
    with e1 show ?thesis by blast
  next
    case (Inr st1)
    with Cons.prems p have "run_batches x pending n ns st1 w1 = (r, w')" by simp
    from Cons.IH [OF this] obtain ext2 where
      "trace w' = trace w1 @ ext2" "\<forall>q. Remove q \<notin> set ext2" by blast
    with e1 show ?thesis by (intro exI [of _ "ext1 @ ext2"]) auto
  qed
qed

lemma run_batches_ok:
  "run_batches x pending n ns st w = (Inr st', w') \<Longrightarrow>
   completed_set st' =
     completed_set st \<union> (\<Union>b\<in>set ns. set (batch_indices BATCH_SIZE pending b)) \<and>
   dom (clues_cache st') =
     dom (clues_cache st) \<union> str_int ` (\<Union>b\<in>set ns. set (batch_indices BATCH_SIZE pending b)) \<and>
   length (words (data st')) = length (words (data st)) \<and>
   metadata (data st') = metadata (data st) \<and>
   (\<forall>q. q \<noteq> PROGRESS_FILE \<longrightarrow> files w' q = files w q)"
proof (induction ns arbitrary: st w)
  case Nil
  then show ?case by simp
next
  case (Cons b ns)
  obtain r1 w1 where p: "process_batch x pending n b st w = (r1, w1)"
    by (cases "process_batch x pending n b st w")
  with Cons.prems obtain st1 where r1: "r1 = Inr st1"
    by (cases r1) auto
  with Cons.prems p have rest: "run_batches x pending n ns st1 w1 = (Inr st', w')" by simp
  note s = process_batch_sets [OF p [unfolded r1]]
  note f = process_batch_ok(3) [OF p [unfolded r1]]
  from Cons.IH [OF rest] s f show ?case by (auto simp: image_Un)
qed

lemma batch_indices_subset: "set (batch_indices B xs b) \<subseteq> set xs"
  by (auto simp: batch_indices_eq dest: in_set_takeD in_set_dropD)

lemma end_idx_le: "end_idx N s lim \<le> int N"
  by (simp add: end_idx_def split: option.splits)

lemma pending_valid:
  assumes "0 \<le> s" "i \<in> set (batch_indices B (indices_to_process N C s lim) b)"
  shows "0 \<le> i \<and> i < int N"
proof -
  from assms(2) batch_indices_subset [of B "indices_to_process N C s lim" b]
  have "i \<in> set (indices_to_process N C s lim)" by (rule subsetD [rotated])
  then have "s \<le> i" "i < end_idx N s lim" by (simp_all add: set_indices_to_process)
  with assms(1) end_idx_le [of N s lim] show ?thesis by simp
qed

lemma final_commit_cases:
  assumes "final_commit x st w = (r, w')"
  shows "\<exists>d. d = (data st)\<lparr>metadata :=
                 (metadata (data st))(''cluesGeneratedAt'' \<mapsto> JStr (now_isoformat x),
                                      ''cluesModel'' \<mapsto> JStr MODEL)\<rparr> \<and>
     ((r = Inl OSError \<and> (\<exists>ext. trace w' = trace w @ ext \<and> (\<forall>q. Remove q \<notin> set ext))) \<or>
      (r = Inr (st\<lparr>data := d\<rparr>) \<and>
       trace w' = trace w @ write_effects (flushes x) (length (trace w)) OUTPUT_FILE (dump_data x d) @
                    (if files w PROGRESS_FILE \<noteq> None then [Remove PROGRESS_FILE] else []) \<and>
       files w' PROGRESS_FILE = None \<and>
       files w' OUTPUT_FILE = Some (concat (dump_data x d))))"
proof -
  let ?d = "(data st)\<lparr>metadata :=
                 (metadata (data st))(''cluesGeneratedAt'' \<mapsto> JStr (now_isoformat x),
                                      ''cluesModel'' \<mapsto> JStr MODEL)\<rparr>"
  let ?E = "write_effects (flushes x) (length (trace w)) OUTPUT_FILE (dump_data x ?d)"
  obtain s w1 where wf: "write_file (io_fails x) (flushes x) OUTPUT_FILE (dump_data x ?d) w = (s, w1)"
    by (cases "write_file (io_fails x) (flushes x) OUTPUT_FILE (dump_data x ?d) w")
  from write_file_run [OF wf] have sv: "s = None \<or> s = Some OSError" by blast
  from write_file_no_remove [OF wf] obtain ext1 where
    e1: "trace w1 = trace w @ ext1" "\<forall>q. Remove q \<notin> set ext1" by blast
  show ?thesis
  proof (cases s)
    case (Some e)
    with sv have "e = OSError" by simp
    with assms wf Some have "r = Inl OSError" "w' = w1" by (simp_all add: final_commit_def Let_def)
    with e1 show ?thesis by blast
  next
    case None
    note ok = write_file_ok [OF wf [unfolded None]]
    have pf: "files w1 PROGRESS_FILE = files w PROGRESS_FILE"
      using ok(2) paths_differ by simp
    have of: "files w1 OUTPUT_FILE = Some (concat (dump_data x ?d))" using ok(2) by simp
    show ?thesis
    proof (cases "files w PROGRESS_FILE = None")
      case True
      with assms wf None pf have "r = Inr (st\<lparr>data := ?d\<rparr>)" "w' = w1"
        by (simp_all add: final_commit_def Let_def)
      with ok(1) pf of True show ?thesis by simp
    next
      case ex: False
      show ?thesis
      proof (cases "io_fails x (length (trace w1))")
        case True
        with assms wf None pf ex have "r = Inl OSError" "w' = w1"
          by (simp_all add: final_commit_def Let_def)
        with e1 show ?thesis by blast
      next
        case False
        with assms wf None pf ex have "r = Inr (st\<lparr>data := ?d\<rparr>)"
          "w' = emit (Remove PROGRESS_FILE) w1"
          by (simp_all add: final_commit_def Let_def)
        with ok(1) of ex paths_differ show ?thesis by simp
      qed
    qed
  qed
qed

lemma main_cases:
  assumes "main x a w = (r, w')"
  shows "(w' = w \<and> (dry_run a \<or> (\<exists>e. r = Inl e))) \<or>
         (\<not> dry_run a \<and> (\<exists>d pr r1 w1.
            load_dictionary x w = Inr d \<and> load_progress x w = Inr pr \<and>
            run_batches x
              (indices_to_process (length (words d)) (completed_indices pr) (start a) (limit a))
              (batch_count BATCH_SIZE
                (indices_to_process (length (words d)) (completed_indices pr) (start a) (limit a)))
              [0..<batch_count BATCH_SIZE
                (indices_to_process (length (words d)) (completed_indices pr) (start a) (limit a))]
              \<lparr>data = d, completed_set = completed_indices pr, clues_cache = clues pr\<rparr> w = (r1, w1) \<and>
            ((\<exists>e. r1 = Inl e \<and> r = Inl e \<and> w' = w1) \<or>
             (\<exists>st1. r1 = Inr st1 \<and> final_commit x st1 w1 = (r, w')))))"
proof (cases "\<not> truthy (resolve_key x a) \<and> \<not> dry_run a")
  case True
  with assms show ?thesis by (auto simp: main_def)
next
  case k: False
  show ?thesis
  proof (cases "load_dictionary x w")
    case (Inl e)
    with assms k show ?thesis by (auto simp: main_def)
  next
    case d: (Inr d)
    show ?thesis
    proof (cases "load_progress x w")
      case (Inl e)
      with assms k d show ?thesis by (auto simp: main_def)
    next
      case pr: (Inr pr)
      let ?st = "\<lparr>data = d, completed_set = completed_indices pr, clues_cache = clues pr\<rparr>"
      let ?pending = "indices_to_process (length (words d)) (completed_indices pr) (start a) (limit a)"
      show ?thesis
      proof (cases "dry_run a")
        case True
        with assms k d pr show ?thesis
          by (auto simp: main_def Let_def split: sum.splits)
      next
        case False
        let ?n = "batch_count BATCH_SIZE ?pending"
        obtain r1 w1 where rb: "run_batches x ?pending ?n [0..<?n] ?st w = (r1, w1)"
          by (cases "run_batches x ?pending ?n [0..<?n] ?st w")
        show ?thesis
        proof (cases r1)
          case (Inl e)
          with assms k d pr False rb have "r = Inl e" "w' = w1"
            by (simp_all add: main_def Let_def)
          with False rb Inl d pr show ?thesis by blast
        next
          case (Inr st1)
          with assms k d pr False rb have "final_commit x st1 w1 = (r, w')"
            by (simp add: main_def Let_def)
          with False rb Inr d pr show ?thesis by blast
        qed
      qed
    qed
  qed
qed

lemmas step_defs = process_batch_def batch_indices_def batch_count_def BATCH_SIZE_def py_index_def
  save_progress_def write_file_def emit_def sample_data_def sample_state_def sample_env_def
  sample_args_def
  indices_to_process_def end_idx_def upto_rec1 main_def final_commit_def load_dictionary_def
  load_progress_def truthy_def resolve_key_def INPUT_FILE_def OUTPUT_FILE_def PROGRESS_FILE_def
  str_int_def str_nat.simps pad_eq define_clue_def

section \<open>What a merge leaves alone\<close>

text \<open>
  C10. The claim is that the merge of a batch changes only the \<^verbatim>\<open>clue\<close> field of the entries
  whose indices are in the batch: the other fields of those entries, every entry at an index
  outside the batch, and the metadata are unchanged, the metadata being stamped once, at the
  final commit. As amended: one turn of the loop leaves the metadata alone and changes no
  field of an entry but \<^verbatim>\<open>clue\<close>: \<^verbatim>\<open>word\<close>, \<^verbatim>\<open>length\<close> and \<^verbatim>\<open>distinctLetters\<close> of every entry are
  as before. An entry that no index of the batch addresses, as Python list indexing does
  (\<open>py_index\<close>, which counts a negative index from the end), is unchanged altogether; when
  no index of the batch is negative, every entry at a position outside the batch is
  unchanged. The indices of every batch are in \<open>0..N - 1\<close>, and so not negative, when the
  start offset is not negative. The metadata are stamped by the final commit, which leaves
  the entries alone.
\<close>

theorem merge_frame:
  "(process_batch x pending n b st w = (Inr st', w') \<longrightarrow>
      metadata (data st') = metadata (data st) \<and>
      length (words (data st')) = length (words (data st)) \<and>
      (\<forall>p<length (words (data st)).
         word (words (data st') ! p) = word (words (data st) ! p) \<and>
         word_length (words (data st') ! p) = word_length (words (data st) ! p) \<and>
         distinctLetters (words (data st') ! p) = distinctLetters (words (data st) ! p) \<and>
         ((\<forall>i\<in>set (batch_indices BATCH_SIZE pending b).
              py_index (length (words (data st))) i \<noteq> Some p) \<longrightarrow>
            words (data st') ! p = words (data st) ! p)) \<and>
      ((\<forall>i\<in>set (batch_indices BATCH_SIZE pending b). 0 \<le> i) \<longrightarrow>
         (\<forall>p<length (words (data st)).
            int p \<notin> set (batch_indices BATCH_SIZE pending b) \<longrightarrow>
            words (data st') ! p = words (data st) ! p))) \<and>
   (pending = indices_to_process N C s lim \<and> 0 \<le> s \<longrightarrow>
      (\<forall>i\<in>set (batch_indices BATCH_SIZE pending b). 0 \<le> i \<and> i < int N)) \<and>
   (final_commit x st w = (Inr st2, w2) \<longrightarrow>
      words (data st2) = words (data st) \<and>
      metadata (data st2) =
        (metadata (data st))(''cluesGeneratedAt'' \<mapsto> JStr (now_isoformat x),
                             ''cluesModel'' \<mapsto> JStr MODEL))"
proof (intro conjI impI)
  assume p: "process_batch x pending n b st w = (Inr st', w')"
  from process_batch_ok(1) [OF p] obtain cs where
    cs: "length cs = length (batch_indices BATCH_SIZE pending b)"
        "merge (zip (batch_indices BATCH_SIZE pending b) cs) st = Inr st'" by blast
  from cs(1) have fs: "fst ` set (zip (batch_indices BATCH_SIZE pending b) cs) =
       set (batch_indices BATCH_SIZE pending b)"
    by (metis map_fst_zip set_map)
  note fr = merge_frame_aux [OF cs(2), unfolded fs]
  from fr show "metadata (data st') = metadata (data st)" by simp
  from fr show "length (words (data st')) = length (words (data st))" by simp
  from fr show "\<forall>p<length (words (data st)).
         word (words (data st') ! p) = word (words (data st) ! p) \<and>
         word_length (words (data st') ! p) = word_length (words (data st) ! p) \<and>
         distinctLetters (words (data st') ! p) = distinctLetters (words (data st) ! p) \<and>
         ((\<forall>i\<in>set (batch_indices BATCH_SIZE pending b).
              py_index (length (words (data st))) i \<noteq> Some p) \<longrightarrow>
            words (data st') ! p = words (data st) ! p)" by simp
  show "\<forall>p<length (words (data st)).
            int p \<notin> set (batch_indices BATCH_SIZE pending b) \<longrightarrow>
            words (data st') ! p = words (data st) ! p"
    if nonneg: "\<forall>i\<in>set (batch_indices BATCH_SIZE pending b). 0 \<le> i"
  proof (intro allI impI)
    fix q assume q: "q < length (words (data st))"
      "int q \<notin> set (batch_indices BATCH_SIZE pending b)"
    have "py_index (length (words (data st))) i \<noteq> Some q"
      if "i \<in> set (batch_indices BATCH_SIZE pending b)" for i
    proof
      assume "py_index (length (words (data st))) i = Some q"
      with nonneg that have "i = int q" by (auto simp: py_index_def split: if_splits)
      with that q(2) show False by simp
    qed
    with fr q(1) show "words (data st') ! q = words (data st) ! q" by blast
  qed
next
  assume "pending = indices_to_process N C s lim \<and> 0 \<le> s"
  then show "\<forall>i\<in>set (batch_indices BATCH_SIZE pending b). 0 \<le> i \<and> i < int N"
    using pending_valid [of s _ BATCH_SIZE N C lim b] by blast
next
  assume f: "final_commit x st w = (Inr st2, w2)"
  from final_commit_cases [OF f] have
    "st2 = st\<lparr>data := (data st)\<lparr>metadata :=
                 (metadata (data st))(''cluesGeneratedAt'' \<mapsto> JStr (now_isoformat x),
                                      ''cluesModel'' \<mapsto> JStr MODEL)\<rparr>\<rparr>" by auto
  then show "words (data st2) = words (data st)"
    "metadata (data st2) =
        (metadata (data st))(''cluesGeneratedAt'' \<mapsto> JStr (now_isoformat x),
                             ''cluesModel'' \<mapsto> JStr MODEL)" by simp_all
qed

text \<open>
  The witness runs one turn on the two sample entries with the start offset \<open>0\<close> and the
  limit \<open>1\<close>: the batch is \<open>[0]\<close>, and the entry at position \<open>1\<close> is unchanged.
\<close>

theorem merge_frame_witness:
  "(\<exists>st' w'.
      process_batch sample_env (indices_to_process 2 {} 0 (Some 1)) 1 0 sample_state
        (fresh Map.empty) = (Inr st', w') \<and>
      metadata (data st') = metadata (data sample_state) \<and>
      words (data st') ! 1 = words (data sample_state) ! 1 \<and>
      word (words (data st') ! 0) = ''CATS'') \<and>
   (\<exists>st2 w2.
      final_commit sample_env sample_state (fresh Map.empty) = (Inr st2, w2) \<and>
      words (data st2) = words (data sample_state) \<and>
      metadata (data st2) ''cluesModel'' = Some (JStr MODEL))"
proof -
  let ?pend = "indices_to_process 2 {} 0 (Some 1)"
  let ?P = "process_batch sample_env ?pend 1 0 sample_state (fresh Map.empty)"
  obtain r w' where p: "?P = (r, w')" by (cases ?P)
  have "\<exists>st. fst ?P = Inr st"
    by (simp add: step_defs run_defs never_def fixed_chunks_def double_def)
  with p obtain st' where r: "r = Inr st'" by auto
  have b: "batch_indices BATCH_SIZE ?pend 0 = [0]"
    by (simp add: step_defs)
  have l: "length (words (data sample_state)) = 2" by (simp add: sample_state_def sample_data_def)
  let ?F = "final_commit sample_env sample_state (fresh Map.empty)"
  obtain r2 w2 where f: "?F = (r2, w2)" by (cases ?F)
  have "\<exists>st. fst ?F = Inr st"
    by (simp add: step_defs run_defs never_def fixed_chunks_def double_def)
  with f obtain st2 where r2: "r2 = Inr st2" by auto
  note inst = merge_frame [where x = sample_env and pending = ?pend and n = 1 and b = 0
      and st = sample_state and w = "fresh Map.empty" and st' = st' and w' = w'
      and N = 2 and C = "{}" and s = 0 and lim = "Some 1" and ?st2.0 = st2 and ?w2.0 = w2]
  have h: "?pend = indices_to_process 2 {} 0 (Some 1) \<and> (0::int) \<le> 0" by simp
  from inst h have nn: "\<forall>i\<in>set (batch_indices BATCH_SIZE ?pend 0). 0 \<le> i" by blast
  from inst p r
  have fr: "metadata (data st') = metadata (data sample_state)"
    "\<forall>p<length (words (data sample_state)).
         word (words (data st') ! p) = word (words (data sample_state) ! p)"
    "(\<forall>i\<in>set (batch_indices BATCH_SIZE ?pend 0). 0 \<le> i) \<longrightarrow>
       (\<forall>p<length (words (data sample_state)).
          int p \<notin> set (batch_indices BATCH_SIZE ?pend 0) \<longrightarrow>
          words (data st') ! p = words (data sample_state) ! p)"
    by simp_all
  from fr(2) l have "word (words (data st') ! 0) = word (words (data sample_state) ! 0)" by simp
  then have w0: "word (words (data st') ! 0) = ''CATS''"
    by (simp add: sample_state_def sample_data_def)
  from fr(3) nn have "\<forall>p<length (words (data sample_state)).
          int p \<notin> set (batch_indices BATCH_SIZE ?pend 0) \<longrightarrow>
          words (data st') ! p = words (data sample_state) ! p" by blast
  then have w1: "words (data st') ! 1 = words (data sample_state) ! 1"
    unfolding b l by simp
  from inst f r2
  have "words (data st2) = words (data sample_state)"
    "metadata (data st2) ''cluesModel'' = Some (JStr MODEL)" by simp_all
  with p r fr(1) w0 w1 f r2 show ?thesis by blast
qed

text \<open>
  The claim as stated fails: with \<^verbatim>\<open>--start -1 --limit 1\<close> on the two sample entries the
  pending list, and the only batch, is \<open>[-1]\<close>; \<^verbatim>\<open>words[-1]\<close> is the entry at position \<open>1\<close>,
  which is not an index of the batch, and the merge replaces its clue by the answer of the
  service.
\<close>

theorem negative_index_reaches_other_entry:
  "indices_to_process 2 {} (- 1) (Some 1) = [- 1] \<and>
   map_sum id (\<lambda>st. clue (words (data st) ! 1))
     (fst (process_batch sample_env (indices_to_process 2 {} (- 1) (Some 1)) 1 0 sample_state
        (fresh Map.empty))) = Inr (Some (JInt 7)) \<and>
   clue (words (data sample_state) ! 1) = Some (JStr ''Define: DOGS'')"
  by (simp add: step_defs run_defs double_defs)

section \<open>The checkpoint invariant\<close>

text \<open>
  C6. The claim is that, if the loaded checkpoint satisfies it, then after every merge and
  save: the keys of the clue map are the completed indices (written as text, so there are
  as many clues as completed indices), every completed index is a dataset index from \<open>0\<close> to
  \<open>N - 1\<close>, and the completed set is the previous one united with the batch's indices. As
  amended, the claim holds when the start offset is not negative: let the first \<open>j\<close> batches
  of the pending list have been processed, and let batch \<open>j\<close> be merged and saved; then the
  state and the checkpoint file written from it are as claimed.
\<close>

theorem checkpoint_invariant:
  assumes "0 \<le> s"
    and "pending = indices_to_process (length (words (data st0))) (completed_set st0) s lim"
    and "dom (clues_cache st0) = str_int ` completed_set st0"
    and "\<forall>i\<in>completed_set st0. 0 \<le> i \<and> i < int (length (words (data st0)))"
    and "run_batches x pending n [0..<j] st0 w0 = (Inr st, w)"
    and "process_batch x pending n j st w = (Inr st', w')"
  shows "dom (clues_cache st') = str_int ` completed_set st' \<and>
         card (dom (clues_cache st')) = card (completed_set st') \<and>
         (\<forall>i\<in>completed_set st'. 0 \<le> i \<and> i < int (length (words (data st')))) \<and>
         completed_set st' = completed_set st \<union> set (batch_indices BATCH_SIZE pending j) \<and>
         files w' PROGRESS_FILE =
           Some (concat (dump_ckpt x \<lparr>completed_indices = completed_set st',
                                       clues = clues_cache st'\<rparr>))"
proof -
  let ?N = "length (words (data st0))"
  let ?U = "\<Union>b\<in>set [0..<j]. set (batch_indices BATCH_SIZE pending b)"
  from run_batches_ok [OF assms(5)] have
    c: "completed_set st = completed_set st0 \<union> ?U" and
    d: "dom (clues_cache st) = dom (clues_cache st0) \<union> str_int ` ?U" and
    l: "length (words (data st)) = ?N" by simp_all
  note s = process_batch_sets [OF assms(6)]
  have valid: "0 \<le> i \<and> i < int ?N" if "i \<in> set (batch_indices BATCH_SIZE pending b)" for i b
    using assms(1) that unfolding assms(2) by (rule pending_valid)
  have 1: "dom (clues_cache st') = str_int ` completed_set st'"
    using s(1,2) c d assms(3) by (simp add: image_Un)
  have 2: "card (dom (clues_cache st')) = card (completed_set st')"
    unfolding 1 by (rule card_image) (rule inj_str_int)
  have 3: "\<forall>i\<in>completed_set st'. 0 \<le> i \<and> i < int (length (words (data st')))"
  proof
    fix i assume "i \<in> completed_set st'"
    with s(1) c have "i \<in> completed_set st0 \<or> (\<exists>b. i \<in> set (batch_indices BATCH_SIZE pending b))"
      by auto
    with assms(4) valid have "0 \<le> i \<and> i < int ?N" by blast
    with s(3) l show "0 \<le> i \<and> i < int (length (words (data st')))" by simp
  qed
  from 1 2 3 s(1) process_batch_ok(2) [OF assms(6)] show ?thesis by blast
qed

theorem checkpoint_invariant_witness:
  "\<exists>st' w'.
     process_batch sample_env (indices_to_process 2 {} 0 None) 1 0 sample_state
       (fresh Map.empty) = (Inr st', w') \<and>
     dom (clues_cache st') = str_int ` completed_set st' \<and>
     card (dom (clues_cache st')) = card (completed_set st') \<and>
     (\<forall>i\<in>completed_set st'. 0 \<le> i \<and> i < int (length (words (data st')))) \<and>
     completed_set st' =
       completed_set sample_state \<union>
       set (batch_indices BATCH_SIZE (indices_to_process 2 {} 0 None) 0) \<and>
     files w' PROGRESS_FILE =
       Some (concat (dump_ckpt sample_env
          \<lparr>completed_indices = completed_set st', clues = clues_cache st'\<rparr>))"
proof -
  obtain r w' where p: "process_batch sample_env (indices_to_process 2 {} 0 None) 1 0
      sample_state (fresh Map.empty) = (r, w')"
    by (cases "process_batch sample_env (indices_to_process 2 {} 0 None) 1 0
      sample_state (fresh Map.empty)")
  have "\<exists>st. fst (process_batch sample_env (indices_to_process 2 {} 0 None) 1 0
      sample_state (fresh Map.empty)) = Inr st"
    by (simp add: step_defs run_defs double_defs)
  with p obtain st' where r: "r = Inr st'" by auto
  have h1: "(0::int) \<le> 0" by simp
  have h2: "indices_to_process 2 {} 0 None =
      indices_to_process (length (words (data sample_state))) (completed_set sample_state) 0 None"
    by (simp add: sample_state_def sample_data_def numeral_2_eq_2)
  have h3: "dom (clues_cache sample_state) = str_int ` completed_set sample_state"
    by (simp add: sample_state_def)
  have h4: "\<forall>i\<in>completed_set sample_state. 0 \<le> i \<and> i < int (length (words (data sample_state)))"
    by (simp add: sample_state_def)
  have h5: "run_batches sample_env (indices_to_process 2 {} 0 None) 1 [0..<0] sample_state
      (fresh Map.empty) = (Inr sample_state, fresh Map.empty)" by simp
  from checkpoint_invariant [OF h1 h2 h3 h4 h5 p [unfolded r]] p r show ?thesis by blast
qed

text \<open>
  The claim as stated fails: with \<^verbatim>\<open>--start -1\<close> on the two-word dictionary and an empty
  checkpoint, the pending list is \<open>[-1, 0, 1]\<close>, \<^verbatim>\<open>words[-1]\<close> is the last entry, and the
  checkpoint saved after the batch holds the index \<open>-1\<close>, which is no index from \<open>0\<close> to \<open>1\<close>.
\<close>

theorem negative_start_enters_checkpoint:
  "map_sum id completed_set
     (fst (process_batch sample_env (indices_to_process 2 {} (- 1) None) 1 0 sample_state
        (fresh Map.empty))) = Inr {1, 0, - 1}"
  by (simp add: step_defs run_defs double_defs)

section \<open>The final commit\<close>

text \<open>
  C7. In every run of \<^verbatim>\<open>main\<close> the checkpoint file is removed at most once, as the last
  effect, right after the complete write of the final dataset (the opening of the dataset
  file, the writes of all its chunks and the close that ends the \<^verbatim>\<open>with\<close> block:
  \<open>write_effects\<close>), and only in a run that completes; a run whose dataset write fails
  removes nothing. After a completed run that is not a dry run the checkpoint file is absent
  and the dataset file holds the final dataset.
\<close>

theorem final_commit_order:
  assumes "main x a w = (r, w')"
  shows "\<exists>ext. trace w' = trace w @ ext \<and>
     (Remove PROGRESS_FILE \<in> set ext \<longrightarrow>
        (\<exists>st pre. r = Inr st \<and> (\<forall>q. Remove q \<notin> set pre) \<and>
           ext = pre @ write_effects (flushes x) (length (trace w) + length pre) OUTPUT_FILE
                         (dump_data x (data st)) @
                   [Remove PROGRESS_FILE])) \<and>
     (\<forall>st. r = Inr st \<and> \<not> dry_run a \<longrightarrow>
        files w' PROGRESS_FILE = None \<and>
        files w' OUTPUT_FILE = Some (concat (dump_data x (data st))) \<and>
        (\<exists>pre post. (\<forall>q. Remove q \<notin> set pre) \<and> (post = [] \<or> post = [Remove PROGRESS_FILE]) \<and>
           ext = pre @ write_effects (flushes x) (length (trace w) + length pre) OUTPUT_FILE
                         (dump_data x (data st)) @ post))"
proof -
  from main_cases [OF assms] consider
    (idle) "w' = w" "dry_run a \<or> (\<exists>e. r = Inl e)"
  | (loop) pending n st0 w1 e where "\<not> dry_run a"
      "run_batches x pending n [0..<n] st0 w = (Inl e, w1)" "r = Inl e" "w' = w1"
  | (commit) pending n st0 w1 st1 where "\<not> dry_run a"
      "run_batches x pending n [0..<n] st0 w = (Inr st1, w1)" "final_commit x st1 w1 = (r, w')"
    by blast
  then show ?thesis
  proof cases
    case idle
    then show ?thesis by (intro exI [of _ "[]"]) auto
  next
    case loop
    from run_batches_trace [OF loop(2)] obtain ext where
      "trace w1 = trace w @ ext" "\<forall>q. Remove q \<notin> set ext" by blast
    with loop show ?thesis by (intro exI [of _ ext]) auto
  next
    case commit
    from run_batches_trace [OF commit(2)] obtain ext1 where
      e1: "trace w1 = trace w @ ext1" "\<forall>q. Remove q \<notin> set ext1" by blast
    let ?d = "(data st1)\<lparr>metadata :=
                 (metadata (data st1))(''cluesGeneratedAt'' \<mapsto> JStr (now_isoformat x),
                                      ''cluesModel'' \<mapsto> JStr MODEL)\<rparr>"
    let ?E = "write_effects (flushes x) (length (trace w) + length ext1) OUTPUT_FILE (dump_data x ?d)"
    have t1: "length (trace w1) = length (trace w) + length ext1" using e1(1) by simp
    from final_commit_cases [OF commit(3)] consider
      (failed) ext2 where "r = Inl OSError" "trace w' = trace w1 @ ext2" "\<forall>q. Remove q \<notin> set ext2"
    | (committed) "r = Inr (st1\<lparr>data := ?d\<rparr>)"
        "trace w' = trace w1 @ ?E @ (if files w1 PROGRESS_FILE \<noteq> None then [Remove PROGRESS_FILE] else [])"
        "files w' PROGRESS_FILE = None" "files w' OUTPUT_FILE = Some (concat (dump_data x ?d))"
      unfolding t1 by auto
    then show ?thesis
    proof cases
      case failed
      with e1 show ?thesis by (intro exI [of _ "ext1 @ ext2"]) auto
    next
      case committed
      let ?post = "if files w1 PROGRESS_FILE \<noteq> None then [Remove PROGRESS_FILE] else []"
      have dd: "data (st1\<lparr>data := ?d\<rparr>) = ?d" by simp
      have noE: "Remove q \<notin> set ?E" for q by (rule no_remove_write_effects)
      show ?thesis
      proof (rule exI [of _ "ext1 @ ?E @ ?post"], intro conjI impI allI)
        show "trace w' = trace w @ ext1 @ ?E @ ?post" using committed(2) e1(1) by simp
      next
        assume "Remove PROGRESS_FILE \<in> set (ext1 @ ?E @ ?post)"
        with e1(2) noE have "?post = [Remove PROGRESS_FILE]"
          by (auto split: if_splits)
        then have "ext1 @ ?E @ ?post =
            ext1 @ write_effects (flushes x) (length (trace w) + length ext1) OUTPUT_FILE
                     (dump_data x (data (st1\<lparr>data := ?d\<rparr>))) @ [Remove PROGRESS_FILE]"
          by (simp only: dd)
        with committed(1) e1(2)
        show "\<exists>st pre. r = Inr st \<and> (\<forall>q. Remove q \<notin> set pre) \<and>
           ext1 @ ?E @ ?post = pre @ write_effects (flushes x) (length (trace w) + length pre) OUTPUT_FILE
                         (dump_data x (data st)) @ [Remove PROGRESS_FILE]" by blast
      next
        fix st assume "r = Inr st \<and> \<not> dry_run a"
        with committed(1) have st: "st = st1\<lparr>data := ?d\<rparr>" by simp
        show "files w' PROGRESS_FILE = None" by (rule committed(3))
        show "files w' OUTPUT_FILE = Some (concat (dump_data x (data st)))"
          using committed(4) st by simp
        have "ext1 @ ?E @ ?post =
            ext1 @ write_effects (flushes x) (length (trace w) + length ext1) OUTPUT_FILE
                     (dump_data x (data st)) @ ?post"
          unfolding st by (simp only: dd)
        moreover have "?post = [] \<or> ?post = [Remove PROGRESS_FILE]" by simp
        ultimately
        show "\<exists>pre post. (\<forall>q. Remove q \<notin> set pre) \<and> (post = [] \<or> post = [Remove PROGRESS_FILE]) \<and>
             ext1 @ ?E @ ?post = pre @ write_effects (flushes x) (length (trace w) + length pre) OUTPUT_FILE
                         (dump_data x (data st)) @ post"
          using e1(2) by blast
      qed
    qed
  qed
qed

theorem final_commit_order_witness:
  "\<exists>st w' pre.
     main sample_env sample_args
       (fresh [INPUT_FILE \<mapsto> ''dictionary'', PROGRESS_FILE \<mapsto> ''checkpoint'']) = (Inr st, w') \<and>
     (\<forall>q. Remove q \<notin> set pre) \<and>
     trace w' = pre @ write_effects (flushes sample_env) (length pre) OUTPUT_FILE
        (dump_data sample_env (data st)) @ [Remove PROGRESS_FILE] \<and>
     files w' PROGRESS_FILE = None \<and>
     files w' OUTPUT_FILE = Some (concat (dump_data sample_env (data st)))"
proof -
  let ?W = "fresh [INPUT_FILE \<mapsto> ''dictionary'', PROGRESS_FILE \<mapsto> ''checkpoint'']"
  obtain r w' where m: "main sample_env sample_args ?W = (r, w')"
    by (cases "main sample_env sample_args ?W")
  have "Remove PROGRESS_FILE \<in> set (trace (snd (main sample_env sample_args ?W)))"
    by (simp add: step_defs run_defs double_defs)
  with m have rem: "Remove PROGRESS_FILE \<in> set (trace w')" by simp
  have nd: "\<not> dry_run sample_args" by (simp add: sample_args_def)
  have t0: "trace ?W = []" by (simp add: fresh_def)
  from final_commit_order [OF m] obtain ext where
    e: "trace w' = trace ?W @ ext"
    and a: "Remove PROGRESS_FILE \<in> set ext \<longrightarrow>
        (\<exists>st pre. r = Inr st \<and> (\<forall>q. Remove q \<notin> set pre) \<and>
           ext = pre @ write_effects (flushes sample_env) (length (trace ?W) + length pre)
                   OUTPUT_FILE (dump_data sample_env (data st)) @ [Remove PROGRESS_FILE])"
    and b: "\<forall>st. r = Inr st \<and> \<not> dry_run sample_args \<longrightarrow>
        files w' PROGRESS_FILE = None \<and>
        files w' OUTPUT_FILE = Some (concat (dump_data sample_env (data st)))"
    by blast
  from e t0 have "ext = trace w'" by simp
  with a rem obtain st pre where
    s: "r = Inr st" "\<forall>q. Remove q \<notin> set pre"
       "trace w' = pre @ write_effects (flushes sample_env) (length pre) OUTPUT_FILE
          (dump_data sample_env (data st)) @ [Remove PROGRESS_FILE]"
    using t0 by auto
  from b s(1) nd have "files w' PROGRESS_FILE = None"
    "files w' OUTPUT_FILE = Some (concat (dump_data sample_env (data st)))" by simp_all
  with m s show ?thesis by blast
qed

section \<open>The batch loop\<close>









end
